theory Spec2Isabelle
  imports Main "HOL-Library.Multiset" "HOL-Library.Word"
begin

unbundle bit_operations_syntax

chapter \<open>flo: response interpreter and document formatter\<close>

text \<open>
  A shallow embedding of the package \<^verbatim>\<open>mcp\<close> of the repository
  (\<^verbatim>\<open>pkg/mcp/parse.go\<close> and \<^verbatim>\<open>ExtractQuestionID\<close> of the client file).
  Go's \<^verbatim>\<open>int\<close> and \<^verbatim>\<open>int64\<close> are 64-bit two's complement integers; they are modelled as
  \<^typ>\<open>int\<close>, and the one place where the code can overflow (the negation in
  \<^verbatim>\<open>formatNumber\<close>) wraps explicitly. Go strings are byte sequences, modelled as
  \<^typ>\<open>string\<close>. A \<^verbatim>\<open>nil\<close> pointer is \<^term>\<open>None\<close>.
\<close>

section \<open>The standard library's \<^verbatim>\<open>sort.Slice\<close>\<close>

text \<open>
  \<^verbatim>\<open>BestQuestion\<close> and \<^verbatim>\<open>FormatQuestionMarkdown\<close> both rank with \<^verbatim>\<open>sort.Slice\<close>.
  Which of several equal elements comes first is decided by the algorithm behind it, so
  it is embedded here as the Go standard library implements it since Go 1.19
  (\<^verbatim>\<open>sort/zsortfunc.go\<close>, \<^verbatim>\<open>pdqsort_func\<close>): insertion sort up to twelve elements,
  otherwise pattern-defeating quicksort with a heapsort fallback. The slice is a list,
  \<^verbatim>\<open>data.Less(i, j)\<close> is \<open>lt (xs ! i) (xs ! j)\<close> and \<^verbatim>\<open>data.Swap(i, j)\<close> is
  \<open>swap xs i j\<close>; every loop is a recursive function over the indices.
\<close>

definition swap :: "'a list \<Rightarrow> nat \<Rightarrow> nat \<Rightarrow> 'a list" where
  "swap xs i j = xs[i := xs ! j, j := xs ! i]"

fun insertion_shift :: "('a \<Rightarrow> 'a \<Rightarrow> bool) \<Rightarrow> nat \<Rightarrow> 'a list \<Rightarrow> nat \<Rightarrow> 'a list" where
  "insertion_shift lt a xs 0 = xs"
| "insertion_shift lt a xs (Suc j) =
     (if a < Suc j \<and> lt (xs ! Suc j) (xs ! j)
      then insertion_shift lt a (swap xs (Suc j) j) j
      else xs)"

function insertionSort_loop ::
  "('a \<Rightarrow> 'a \<Rightarrow> bool) \<Rightarrow> 'a list \<Rightarrow> nat \<Rightarrow> nat \<Rightarrow> nat \<Rightarrow> 'a list" where
  "insertionSort_loop lt xs a b i =
     (if i < b then insertionSort_loop lt (insertion_shift lt a xs i) a b (Suc i) else xs)"
  by pat_completeness auto
termination
  by (relation "measure (\<lambda>(lt, xs, a, b, i). b - i)") auto

declare insertionSort_loop.simps [simp del]

definition insertionSort_func ::
  "('a \<Rightarrow> 'a \<Rightarrow> bool) \<Rightarrow> 'a list \<Rightarrow> nat \<Rightarrow> nat \<Rightarrow> 'a list" where
  "insertionSort_func lt xs a b = insertionSort_loop lt xs a b (a + 1)"

function siftDown_func ::
  "('a \<Rightarrow> 'a \<Rightarrow> bool) \<Rightarrow> 'a list \<Rightarrow> nat \<Rightarrow> nat \<Rightarrow> nat \<Rightarrow> 'a list" where
  "siftDown_func lt xs root hi first =
     (let child = 2 * root + 1 in
      if child \<ge> hi then xs
      else
        let child' = (if child + 1 < hi \<and> lt (xs ! (first + child)) (xs ! (first + child + 1))
                      then child + 1 else child)
        in if \<not> lt (xs ! (first + root)) (xs ! (first + child')) then xs
           else siftDown_func lt (swap xs (first + root) (first + child')) child' hi first)"
  by pat_completeness auto
termination
  by (relation "measure (\<lambda>(lt, xs, root, hi, first). hi - root)") (auto simp: Let_def)

declare siftDown_func.simps [simp del]

fun heapSort_build :: "('a \<Rightarrow> 'a \<Rightarrow> bool) \<Rightarrow> 'a list \<Rightarrow> nat \<Rightarrow> nat \<Rightarrow> nat \<Rightarrow> 'a list" where
  "heapSort_build lt xs hi first 0 = siftDown_func lt xs 0 hi first"
| "heapSort_build lt xs hi first (Suc i) =
     heapSort_build lt (siftDown_func lt xs (Suc i) hi first) hi first i"

fun heapSort_pop :: "('a \<Rightarrow> 'a \<Rightarrow> bool) \<Rightarrow> 'a list \<Rightarrow> nat \<Rightarrow> nat \<Rightarrow> 'a list" where
  "heapSort_pop lt xs first 0 = xs"
| "heapSort_pop lt xs first (Suc i) =
     heapSort_pop lt (siftDown_func lt (swap xs first (first + i)) 0 i first) first i"

definition heapSort_func ::
  "('a \<Rightarrow> 'a \<Rightarrow> bool) \<Rightarrow> 'a list \<Rightarrow> nat \<Rightarrow> nat \<Rightarrow> 'a list" where
  "heapSort_func lt xs a b =
     (let first = a; hi = b - a in
      heapSort_pop lt (heapSort_build lt xs hi first ((hi - 1) div 2)) first hi)"

datatype sortedHint = unknownHint | increasingHint | decreasingHint

definition order2_func ::
  "('a \<Rightarrow> 'a \<Rightarrow> bool) \<Rightarrow> 'a list \<Rightarrow> nat \<Rightarrow> nat \<Rightarrow> nat \<Rightarrow> nat \<times> nat \<times> nat" where
  "order2_func lt xs a b swaps =
     (if lt (xs ! b) (xs ! a) then (b, a, swaps + 1) else (a, b, swaps))"

definition median_func ::
  "('a \<Rightarrow> 'a \<Rightarrow> bool) \<Rightarrow> 'a list \<Rightarrow> nat \<Rightarrow> nat \<Rightarrow> nat \<Rightarrow> nat \<Rightarrow> nat \<times> nat" where
  "median_func lt xs a b c swaps =
     (let (a1, b1, s1) = order2_func lt xs a b swaps;
          (b2, c2, s2) = order2_func lt xs b1 c s1;
          (a3, b3, s3) = order2_func lt xs a1 b2 s2
      in (b3, s3))"

definition medianAdjacent_func ::
  "('a \<Rightarrow> 'a \<Rightarrow> bool) \<Rightarrow> 'a list \<Rightarrow> nat \<Rightarrow> nat \<Rightarrow> nat \<times> nat" where
  "medianAdjacent_func lt xs a swaps = median_func lt xs (a - 1) a (a + 1) swaps"

definition choosePivot_func ::
  "('a \<Rightarrow> 'a \<Rightarrow> bool) \<Rightarrow> 'a list \<Rightarrow> nat \<Rightarrow> nat \<Rightarrow> nat \<times> sortedHint" where
  "choosePivot_func lt xs a b =
     (let l = b - a;
          i = a + l div 4 * 1;
          j = a + l div 4 * 2;
          k = a + l div 4 * 3;
          (j', swaps) =
            (if l \<ge> 8 then
               (let (i1, j1, k1, s1) =
                      (if l \<ge> 50 then
                         (let (i', sa) = medianAdjacent_func lt xs i 0;
                              (j', sb) = medianAdjacent_func lt xs j sa;
                              (k', sc) = medianAdjacent_func lt xs k sb
                          in (i', j', k', sc))
                       else (i, j, k, 0))
                in median_func lt xs i1 j1 k1 s1)
             else (j, 0))
      in if swaps = 0 then (j', increasingHint)
         else if swaps = 12 then (j', decreasingHint)
         else (j', unknownHint))"

function reverseRange_loop :: "'a list \<Rightarrow> nat \<Rightarrow> nat \<Rightarrow> 'a list" where
  "reverseRange_loop xs i j =
     (if i < j then reverseRange_loop (swap xs i j) (i + 1) (j - 1) else xs)"
  by pat_completeness auto
termination
  by (relation "measure (\<lambda>(xs, i, j). j - i)") auto

declare reverseRange_loop.simps [simp del]

definition reverseRange_func :: "'a list \<Rightarrow> nat \<Rightarrow> nat \<Rightarrow> 'a list" where
  "reverseRange_func xs a b = reverseRange_loop xs a (b - 1)"


function scan_up :: "('a \<Rightarrow> bool) \<Rightarrow> 'a list \<Rightarrow> nat \<Rightarrow> nat \<Rightarrow> nat" where
  "scan_up P xs i j = (if i \<le> j \<and> P (xs ! i) then scan_up P xs (i + 1) j else i)"
  by pat_completeness auto
termination
  by (relation "measure (\<lambda>(P, xs, i, j). Suc j - i)") auto

declare scan_up.simps [simp del]

text \<open>
  \<open>scan_down\<close> is the loop \<^verbatim>\<open>for i <= j && P(j) { j-- }\<close>. Its callers start with
  \<open>0 < i\<close>, so \<open>j\<close> stops at \<open>i - 1 \<ge> 0\<close> at the latest and never becomes negative.
\<close>

fun scan_down :: "('a \<Rightarrow> bool) \<Rightarrow> 'a list \<Rightarrow> nat \<Rightarrow> nat \<Rightarrow> nat" where
  "scan_down P xs i 0 = 0"
| "scan_down P xs i (Suc j) = (if i \<le> Suc j \<and> P (xs ! Suc j) then scan_down P xs i j else Suc j)"

lemma scan_up_ge: "i \<le> scan_up P xs i j"
  by (induction P xs i j rule: scan_up.induct) (subst scan_up.simps, auto)

lemma scan_up_le: "i \<le> Suc j \<Longrightarrow> scan_up P xs i j \<le> Suc j"
  by (induction P xs i j rule: scan_up.induct) (subst scan_up.simps, auto)

lemma scan_down_le: "scan_down P xs i j \<le> j"
  by (induction j) auto

lemma scan_down_ge: "i \<le> Suc j \<Longrightarrow> i \<le> Suc (scan_down P xs i j)"
  by (induction j) auto

function partition_loop ::
  "('a \<Rightarrow> 'a \<Rightarrow> bool) \<Rightarrow> 'a list \<Rightarrow> nat \<Rightarrow> nat \<Rightarrow> nat \<Rightarrow> 'a list \<times> nat" where
  "partition_loop lt xs a i j =
     (let i1 = scan_up (\<lambda>x. lt x (xs ! a)) xs i j;
          j1 = scan_down (\<lambda>x. \<not> lt x (xs ! a)) xs i1 j
      in if i1 > j1 then (xs, j1)
         else partition_loop lt (swap xs i1 j1) a (i1 + 1) (j1 - 1))"
  by pat_completeness auto
termination
proof (relation "measure (\<lambda>(lt, xs, a, i, j). Suc j - i)", goal_cases)
  case 1
  show ?case by simp
next
  case (2 lt xs a i j i1 j1)
  have "i \<le> i1" using 2(1) by (simp add: scan_up_ge)
  moreover have "j1 \<le> j" using 2(2) by (simp add: scan_down_le)
  ultimately show ?case using 2(3) by auto
qed

declare partition_loop.simps [simp del]

definition partition_func ::
  "('a \<Rightarrow> 'a \<Rightarrow> bool) \<Rightarrow> 'a list \<Rightarrow> nat \<Rightarrow> nat \<Rightarrow> nat \<Rightarrow> 'a list \<times> nat \<times> bool" where
  "partition_func lt xs a b pivot =
     (let xs1 = swap xs a pivot;
          i = scan_up (\<lambda>x. lt x (xs1 ! a)) xs1 (a + 1) (b - 1);
          j = scan_down (\<lambda>x. \<not> lt x (xs1 ! a)) xs1 i (b - 1)
      in if i > j then (swap xs1 j a, j, True)
         else
           let (xs2, j2) = partition_loop lt (swap xs1 i j) a (i + 1) (j - 1)
           in (swap xs2 j2 a, j2, False))"

function partitionEqual_loop ::
  "('a \<Rightarrow> 'a \<Rightarrow> bool) \<Rightarrow> 'a list \<Rightarrow> nat \<Rightarrow> nat \<Rightarrow> nat \<Rightarrow> 'a list \<times> nat" where
  "partitionEqual_loop lt xs a i j =
     (let i1 = scan_up (\<lambda>x. \<not> lt (xs ! a) x) xs i j;
          j1 = scan_down (\<lambda>x. lt (xs ! a) x) xs i1 j
      in if i1 > j1 then (xs, i1)
         else partitionEqual_loop lt (swap xs i1 j1) a (i1 + 1) (j1 - 1))"
  by pat_completeness auto
termination
proof (relation "measure (\<lambda>(lt, xs, a, i, j). Suc j - i)", goal_cases)
  case 1
  show ?case by simp
next
  case (2 lt xs a i j i1 j1)
  have "i \<le> i1" using 2(1) by (simp add: scan_up_ge)
  moreover have "j1 \<le> j" using 2(2) by (simp add: scan_down_le)
  ultimately show ?case using 2(3) by auto
qed

declare partitionEqual_loop.simps [simp del]

definition partitionEqual_func ::
  "('a \<Rightarrow> 'a \<Rightarrow> bool) \<Rightarrow> 'a list \<Rightarrow> nat \<Rightarrow> nat \<Rightarrow> nat \<Rightarrow> 'a list \<times> nat" where
  "partitionEqual_func lt xs a b pivot =
     partitionEqual_loop lt (swap xs a pivot) a (a + 1) (b - 1)"

function scan_sorted :: "('a \<Rightarrow> 'a \<Rightarrow> bool) \<Rightarrow> 'a list \<Rightarrow> nat \<Rightarrow> nat \<Rightarrow> nat" where
  "scan_sorted lt xs i b =
     (if i < b \<and> \<not> lt (xs ! i) (xs ! (i - 1)) then scan_sorted lt xs (i + 1) b else i)"
  by pat_completeness auto
termination
  by (relation "measure (\<lambda>(lt, xs, i, b). b - i)") auto

declare scan_sorted.simps [simp del]

fun shift_left :: "('a \<Rightarrow> 'a \<Rightarrow> bool) \<Rightarrow> 'a list \<Rightarrow> nat \<Rightarrow> 'a list" where
  "shift_left lt xs 0 = xs"
| "shift_left lt xs (Suc j) =
     (if \<not> lt (xs ! Suc j) (xs ! j) then xs else shift_left lt (swap xs (Suc j) j) j)"

function shift_right :: "('a \<Rightarrow> 'a \<Rightarrow> bool) \<Rightarrow> 'a list \<Rightarrow> nat \<Rightarrow> nat \<Rightarrow> 'a list" where
  "shift_right lt xs j b =
     (if j < b then
        (if \<not> lt (xs ! j) (xs ! (j - 1)) then xs
         else shift_right lt (swap xs j (j - 1)) (j + 1) b)
      else xs)"
  by pat_completeness auto
termination
  by (relation "measure (\<lambda>(lt, xs, j, b). b - j)") auto

declare shift_right.simps [simp del]

fun partialInsertionSort_loop ::
  "('a \<Rightarrow> 'a \<Rightarrow> bool) \<Rightarrow> 'a list \<Rightarrow> nat \<Rightarrow> nat \<Rightarrow> nat \<Rightarrow> nat \<Rightarrow> bool \<times> 'a list" where
  "partialInsertionSort_loop lt xs a b i 0 = (False, xs)"
| "partialInsertionSort_loop lt xs a b i (Suc steps) =
     (let i1 = scan_sorted lt xs i b in
      if i1 = b then (True, xs)
      else if b - a < 50 then (False, xs)
      else
        let xs1 = swap xs i1 (i1 - 1);
            xs2 = (if i1 - a \<ge> 2 then shift_left lt xs1 (i1 - 1) else xs1);
            xs3 = (if b - i1 \<ge> 2 then shift_right lt xs2 (i1 + 1) b else xs2)
        in partialInsertionSort_loop lt xs3 a b i1 steps)"

definition partialInsertionSort_func ::
  "('a \<Rightarrow> 'a \<Rightarrow> bool) \<Rightarrow> 'a list \<Rightarrow> nat \<Rightarrow> nat \<Rightarrow> bool \<times> 'a list" where
  "partialInsertionSort_func lt xs a b = partialInsertionSort_loop lt xs a b (a + 1) 5"

fun bits_Len :: "nat \<Rightarrow> nat" where
  "bits_Len n = (if n = 0 then 0 else Suc (bits_Len (n div 2)))"

declare bits_Len.simps [simp del]

definition xorshift_Next :: "64 word \<Rightarrow> 64 word" where
  "xorshift_Next r =
     (let r1 = r XOR push_bit 13 r;
          r2 = r1 XOR drop_bit 7 r1;
          r3 = r2 XOR push_bit 17 r2
      in r3)"

definition nextPowerOfTwo :: "nat \<Rightarrow> 64 word" where
  "nextPowerOfTwo len = push_bit (bits_Len len) 1"

fun breakPatterns_loop ::
  "'a list \<Rightarrow> nat \<Rightarrow> nat \<Rightarrow> 64 word \<Rightarrow> 64 word \<Rightarrow> nat \<Rightarrow> nat \<Rightarrow> nat \<Rightarrow> 'a list" where
  "breakPatterns_loop xs a len random modulus idx i 0 = xs"
| "breakPatterns_loop xs a len random modulus idx i (Suc n) =
     (let random' = xorshift_Next random;
          other0 = unat (random' AND (modulus - 1));
          other = (if other0 \<ge> len then other0 - len else other0)
      in breakPatterns_loop (swap xs (idx - 1 + i) (a + other)) a len random' modulus idx (i + 1) n)"

definition breakPatterns_func :: "'a list \<Rightarrow> nat \<Rightarrow> nat \<Rightarrow> 'a list" where
  "breakPatterns_func xs a b =
     (let len = b - a in
      if len \<ge> 8 then
        breakPatterns_loop xs a len (word_of_nat len) (nextPowerOfTwo len)
          (a + (len div 4) * 2 - 1) 0 3
      else xs)"

lemma scan_up_stop: "scan_up P xs i j \<le> j \<Longrightarrow> \<not> P (xs ! scan_up P xs i j)"
  by (induction P xs i j rule: scan_up.induct) (subst scan_up.simps, subst (asm) scan_up.simps, auto)

lemma scan_down_stop:
  "0 < i \<Longrightarrow> i \<le> scan_down P xs i j \<Longrightarrow> \<not> P (xs ! scan_down P xs i j)"
  by (induction j) (auto split: if_splits)

lemma scans_cross:
  assumes "i1 = scan_up P xs i j" and "j1 = scan_down (\<lambda>x. \<not> P x) xs i1 j"
    and "0 < i" and "i1 \<le> j1"
  shows "i1 < j1"
proof -
  have "0 < i1" using assms(1,3) scan_up_ge[of i P xs j] by simp
  have "j1 \<le> j" using assms(2) by (simp add: scan_down_le)
  then have "\<not> P (xs ! i1)"
    using assms(1,4) scan_up_stop[of P xs i j] by simp
  moreover have "P (xs ! j1)"
    using scan_down_stop[of i1 "\<lambda>x. \<not> P x" xs j] \<open>0 < i1\<close> assms(2,4) by simp
  ultimately have "i1 \<noteq> j1" by auto
  then show ?thesis using assms(4) by simp
qed

lemma partition_loop_bounds:
  "partition_loop lt xs a i j = (ys, m) \<Longrightarrow> 0 < i \<Longrightarrow> i \<le> Suc j \<Longrightarrow> m \<le> j \<and> i \<le> Suc m"
proof (induction lt xs a i j arbitrary: ys m rule: partition_loop.induct)
  case (1 lt xs a i j)
  define i1 where "i1 = scan_up (\<lambda>x. lt x (xs ! a)) xs i j"
  define j1 where "j1 = scan_down (\<lambda>x. \<not> lt x (xs ! a)) xs i1 j"
  have i1: "i \<le> i1" "i1 \<le> Suc j"
    using "1.prems"(3) by (simp_all add: i1_def scan_up_ge scan_up_le)
  have j1: "j1 \<le> j" "i1 \<le> Suc j1"
    using i1 by (simp_all add: j1_def scan_down_le scan_down_ge)
  show ?case
  proof (cases "i1 > j1")
    case True
    then have "m = j1"
      using "1.prems"(1) by (subst (asm) partition_loop.simps) (auto simp add: i1_def j1_def Let_def)
    then show ?thesis using i1 j1 True by simp
  next
    case False
    then have eq: "partition_loop lt (swap xs i1 j1) a (i1 + 1) (j1 - 1) = (ys, m)"
      using "1.prems"(1) by (subst (asm) partition_loop.simps) (simp add: i1_def j1_def Let_def)
    have lt: "i1 < j1"
      using scans_cross[OF i1_def j1_def "1.prems"(2)] False by simp
    have "m \<le> j1 - 1 \<and> i1 + 1 \<le> Suc m"
      using "1.IH"[OF i1_def j1_def False eq] lt by simp
    then show ?thesis using i1 j1 lt by arith
  qed
qed

lemma partition_func_bounds:
  assumes "partition_func lt xs a b pivot = (ys, m, ap)" and "a < b"
  shows "a \<le> m \<and> m < b"
proof -
  define xs1 where "xs1 = swap xs a pivot"
  define i where "i = scan_up (\<lambda>x. lt x (xs1 ! a)) xs1 (a + 1) (b - 1)"
  define j where "j = scan_down (\<lambda>x. \<not> lt x (xs1 ! a)) xs1 i (b - 1)"
  have i: "a + 1 \<le> i" "i \<le> Suc (b - 1)"
    using assms(2) scan_up_le[of "a + 1" "b - 1" "\<lambda>x. lt x (xs1 ! a)" xs1]
    by (simp_all add: i_def scan_up_ge)
  have j: "j \<le> b - 1" "i \<le> Suc j"
    using i by (simp_all add: j_def scan_down_le scan_down_ge)
  show ?thesis
  proof (cases "i > j")
    case True
    then have "m = j"
      using assms(1) by (simp add: partition_func_def Let_def xs1_def i_def j_def)
    then show ?thesis using i j assms(2) by simp
  next
    case False
    obtain xs2 j2 where pl: "partition_loop lt (swap xs1 i j) a (i + 1) (j - 1) = (xs2, j2)"
      by (cases "partition_loop lt (swap xs1 i j) a (i + 1) (j - 1)")
    have "m = j2"
      using assms(1) False pl by (simp add: partition_func_def Let_def xs1_def i_def j_def)
    moreover have lt: "i < j"
      using scans_cross[OF i_def j_def] False by simp
    moreover have "j2 \<le> j - 1 \<and> i + 1 \<le> Suc j2"
      using partition_loop_bounds[OF pl] lt by simp
    ultimately show ?thesis using i j assms(2) by arith
  qed
qed

lemma partitionEqual_loop_bounds:
  "partitionEqual_loop lt xs a i j = (ys, m) \<Longrightarrow> i \<le> m"
proof (induction lt xs a i j arbitrary: ys m rule: partitionEqual_loop.induct)
  case (1 lt xs a i j)
  define i1 where "i1 = scan_up (\<lambda>x. \<not> lt (xs ! a) x) xs i j"
  define j1 where "j1 = scan_down (\<lambda>x. lt (xs ! a) x) xs i1 j"
  have i1: "i \<le> i1" by (simp add: i1_def scan_up_ge)
  show ?case
  proof (cases "i1 > j1")
    case True
    then have "m = i1"
      using "1.prems"(1) by (subst (asm) partitionEqual_loop.simps) (auto simp add: i1_def j1_def Let_def)
    then show ?thesis using i1 by simp
  next
    case False
    then have eq: "partitionEqual_loop lt (swap xs i1 j1) a (i1 + 1) (j1 - 1) = (ys, m)"
      using "1.prems"(1) by (subst (asm) partitionEqual_loop.simps) (simp add: i1_def j1_def Let_def)
    have "i1 + 1 \<le> m"
      using "1.IH"[OF i1_def j1_def _ eq] False by simp
    then show ?thesis using i1 by simp
  qed
qed

lemma partitionEqual_func_bounds:
  "partitionEqual_func lt xs a b pivot = (ys, m) \<Longrightarrow> a < m"
  using partitionEqual_loop_bounds[of lt "swap xs a pivot" a "a + 1" "b - 1" ys m]
  by (simp add: partitionEqual_func_def)

function pdqsort_func ::
  "('a \<Rightarrow> 'a \<Rightarrow> bool) \<Rightarrow> 'a list \<Rightarrow> nat \<Rightarrow> nat \<Rightarrow> nat \<Rightarrow> bool \<Rightarrow> bool \<Rightarrow> 'a list" where
  "pdqsort_func lt xs a b limit wasBalanced wasPartitioned =
     (let len = b - a in
      if len \<le> 12 then insertionSort_func lt xs a b
      else if limit = 0 then heapSort_func lt xs a b
      else
        let (xs1, limit1) =
              (if \<not> wasBalanced then (breakPatterns_func xs a b, limit - 1) else (xs, limit));
            (pivot0, hint0) = choosePivot_func lt xs1 a b;
            (xs2, pivot, hint) =
              (if hint0 = decreasingHint
               then (reverseRange_func xs1 a b, (b - 1) - (pivot0 - a), increasingHint)
               else (xs1, pivot0, hint0));
            (sorted, xs3) =
              (if wasBalanced \<and> wasPartitioned \<and> hint = increasingHint
               then partialInsertionSort_func lt xs2 a b
               else (False, xs2))
        in
          if sorted then xs3
          else if a > 0 \<and> \<not> lt (xs3 ! (a - 1)) (xs3 ! pivot) then
            (let (xs4, mid) = partitionEqual_func lt xs3 a b pivot
             in pdqsort_func lt xs4 mid b limit1 wasBalanced wasPartitioned)
          else
            (let (xs4, mid, alreadyPartitioned) = partition_func lt xs3 a b pivot;
                 leftLen = mid - a;
                 rightLen = b - mid;
                 balanceThreshold = len div 8
             in if leftLen < rightLen then
                  pdqsort_func lt (pdqsort_func lt xs4 a mid limit1 True True)
                    (mid + 1) b limit1 (leftLen \<ge> balanceThreshold) alreadyPartitioned
                else
                  pdqsort_func lt (pdqsort_func lt xs4 (mid + 1) b limit1 True True)
                    a mid limit1 (rightLen \<ge> balanceThreshold) alreadyPartitioned))"
  by pat_completeness auto
termination
proof (relation "measure (\<lambda>(lt, xs, a, b, limit, wb, wp). b - a)", goal_cases)
  case 1
  show ?case by simp
next
  case (2 lt xs a b limit wb wp len x1 xs1 limit1 x2 pivot0 hint0 x3 xs2 y3 pivot hint x4 sorted xs3 x5 xs4 mid)
  then have "partitionEqual_func lt xs3 a b pivot = (xs4, mid)" and "a < b"
    by auto
  from partitionEqual_func_bounds[OF this(1)] this(2) show ?case
    by auto
next
  case (3 lt xs a b limit wb wp len x1 xs1 limit1 x2 pivot0 hint0 x3 xs2 y3 pivot hint x4 sorted xs3 x5 xs4 y5 mid ap)
  then have "partition_func lt xs3 a b pivot = (xs4, mid, ap)" and "a < b"
    by auto
  from partition_func_bounds[OF this] show ?case
    by auto
next
  case (4 lt xs a b limit wb wp len x1 xs1 limit1 x2 pivot0 hint0 x3 xs2 y3 pivot hint x4 sorted xs3 x5 xs4 y5 mid ap)
  then have "partition_func lt xs3 a b pivot = (xs4, mid, ap)" and "a < b"
    by auto
  from partition_func_bounds[OF this] show ?case
    by auto
next
  case (5 lt xs a b limit wb wp len x1 xs1 limit1 x2 pivot0 hint0 x3 xs2 y3 pivot hint x4 sorted xs3 x5 xs4 y5 mid ap)
  then have "partition_func lt xs3 a b pivot = (xs4, mid, ap)" and "a < b"
    by auto
  from partition_func_bounds[OF this] show ?case
    by auto
next
  case (6 lt xs a b limit wb wp len x1 xs1 limit1 x2 pivot0 hint0 x3 xs2 y3 pivot hint x4 sorted xs3 x5 xs4 y5 mid ap)
  then have "partition_func lt xs3 a b pivot = (xs4, mid, ap)" and "a < b"
    by auto
  from partition_func_bounds[OF this] show ?case
    by auto
qed

declare pdqsort_func.simps [simp del]

definition sort_Slice :: "('a \<Rightarrow> 'a \<Rightarrow> bool) \<Rightarrow> 'a list \<Rightarrow> 'a list" where
  "sort_Slice lt xs = pdqsort_func lt xs 0 (length xs) (bits_Len (length xs)) True True"

section \<open>The data model (\<^verbatim>\<open>parse.go\<close>)\<close>

text \<open>
  The JSON structs of the response envelope. Field names carry the struct as a prefix
  where two structs share a name. A slice is a list (\<^verbatim>\<open>nil\<close> and the empty slice are both
  \<open>[]\<close>: the code only reads \<^verbatim>\<open>len\<close> and the elements).
\<close>

datatype json =
    JNull
  | JBool bool
  | JNumber string
  | JString string
  | JArray "json list"
  | JObject "(string \<times> json) list"

record OwnerData =
  DisplayName :: string
  owner_Link :: string

record AnswerData =
  ans_Owner :: OwnerData
  IsAccepted :: bool
  ans_LastActivityDate :: int
  AnswerID :: int
  ans_Score :: int
  ans_BodyMarkdown :: string
  ans_Link :: string
  ans_Title :: string

record QuestionData =
  Tags :: "string list"
  Owner :: OwnerData
  IsAnswered :: bool
  ViewCount :: int
  AnswerCount :: int
  Score :: int
  AcceptedAnswerID :: int
  CreationDate :: int
  LastActivityDate :: int
  QuestionID :: int
  BodyMarkdown :: string
  Link :: string
  Title :: string
  Answers :: "AnswerData list"

record SOItem =
  Site :: string
  Type :: string
  ID :: string
  Data :: QuestionData

record SOResponse =
  Items :: "SOItem list"
  Errors :: "json list"

section \<open>\<^verbatim>\<open>BestQuestion\<close>\<close>

text \<open>
  \<^verbatim>\<open>questions\<close> is a slice of pointers \<^verbatim>\<open>&resp.Items[i].Data\<close>; a pointer is modelled by the
  index \<open>i\<close> it addresses, so that two items with equal contents stay distinguishable.
  \<^verbatim>\<open>strings.ToLower\<close> is a parameter.
\<close>

definition is_question :: "SOItem \<Rightarrow> bool" where
  "is_question item = (\<not> (Type item \<noteq> '''' \<and> Type item \<noteq> ''Question''))"

definition question_less :: "SOResponse \<Rightarrow> nat \<Rightarrow> nat \<Rightarrow> bool" where
  "question_less resp i j =
     (let qi = Data (Items resp ! i); qj = Data (Items resp ! j)
      in if Score qi \<noteq> Score qj then Score qi > Score qj
         else ViewCount qi > ViewCount qj)"

definition tag_matches :: "(string \<Rightarrow> string) \<Rightarrow> string list \<Rightarrow> QuestionData \<Rightarrow> bool" where
  "tag_matches ToLower tagHints q =
     list_ex (\<lambda>t. ToLower t \<in> set (map ToLower tagHints)) (Tags q)"

text \<open>The loop that keeps the items whose \<^verbatim>\<open>Type\<close> is empty or \<^verbatim>\<open>"Question"\<close>.\<close>

definition question_ptrs :: "SOResponse \<Rightarrow> nat list" where
  "question_ptrs resp = filter (\<lambda>i. is_question (Items resp ! i)) [0..<length (Items resp)]"

text \<open>The block \<^verbatim>\<open>if len(tagHints) > 0 { ... }\<close>.\<close>

definition prefer_tagged ::
  "(string \<Rightarrow> string) \<Rightarrow> SOResponse \<Rightarrow> string list \<Rightarrow> nat list \<Rightarrow> nat list" where
  "prefer_tagged ToLower resp tagHints questions =
     (if length tagHints > 0 then
        (let matching = filter (\<lambda>i. tag_matches ToLower tagHints (Data (Items resp ! i))) questions
         in if length matching > 0 then matching else questions)
      else questions)"

definition BestQuestion_ptr ::
  "(string \<Rightarrow> string) \<Rightarrow> SOResponse option \<Rightarrow> string list \<Rightarrow> nat option" where
  "BestQuestion_ptr ToLower resp tagHints =
     (case resp of
        None \<Rightarrow> None
      | Some r \<Rightarrow>
          if length (Items r) = 0 then None
          else
            (let questions = question_ptrs r in
             if length questions = 0 then None
             else
               (let questions = prefer_tagged ToLower r tagHints questions;
                    questions = sort_Slice (question_less r) questions
                in Some (questions ! 0))))"

text \<open>The payload the returned pointer addresses.\<close>

definition BestQuestion ::
  "(string \<Rightarrow> string) \<Rightarrow> SOResponse option \<Rightarrow> string list \<Rightarrow> QuestionData option" where
  "BestQuestion ToLower resp tagHints =
     (case BestQuestion_ptr ToLower resp tagHints of
        None \<Rightarrow> None
      | Some i \<Rightarrow> Some (Data (Items (the resp) ! i)))"

section \<open>\<^verbatim>\<open>formatNumber\<close>\<close>

definition digit_char :: "nat \<Rightarrow> char" where
  "digit_char d = ''0123456789'' ! d"

function decimal :: "nat \<Rightarrow> string" where
  "decimal n = (if n < 10 then [digit_char n] else decimal (n div 10) @ [digit_char (n mod 10)])"
  by pat_completeness auto
termination
  by (relation "measure id") auto

declare decimal.simps [simp del]

definition Sprintf_d :: "int \<Rightarrow> string" where
  "Sprintf_d n = (if n < 0 then ''-'' @ decimal (nat (- n)) else decimal (nat n))"

definition neg_int64 :: "int \<Rightarrow> int" where
  "neg_int64 n = ((- n + 2 ^ 63) mod 2 ^ 64) - 2 ^ 63"

function formatNumber_loop :: "string \<Rightarrow> string list \<Rightarrow> string \<times> string list" where
  "formatNumber_loop s parts =
     (if length s > 3
      then formatNumber_loop (take (length s - 3) s) (drop (length s - 3) s # parts)
      else (s, parts))"
  by pat_completeness auto
termination
  by (relation "measure (\<lambda>(s, parts). length s)") auto

declare formatNumber_loop.simps [simp del]

fun strings_Join :: "string list \<Rightarrow> string \<Rightarrow> string" where
  "strings_Join [] sep = ''''"
| "strings_Join [x] sep = x"
| "strings_Join (x # y # ys) sep = x @ sep @ strings_Join (y # ys) sep"

definition group_digits :: "string \<Rightarrow> string" where
  "group_digits s =
     (if length s \<le> 3 then s
      else (let (s', parts) = formatNumber_loop s [] in strings_Join (s' # parts) '',''))"

text \<open>
  The recursion on a negative argument is on \<^verbatim>\<open>-n\<close>, which in 64-bit arithmetic is again
  negative for the least \<^verbatim>\<open>int\<close>; \<open>None\<close> is the call that never returns.
\<close>

partial_function (option) formatNumber :: "int \<Rightarrow> string option" where
  "formatNumber n =
     (if n < 0 then Option.bind (formatNumber (neg_int64 n)) (\<lambda>s. Some (''-'' @ s))
      else Some (group_digits (Sprintf_d n)))"

section \<open>\<^verbatim>\<open>FormatQuestionMarkdown\<close>\<close>

text \<open>
  \<^verbatim>\<open>html.UnescapeString\<close> and \<^verbatim>\<open>time.Unix(t, 0).Format("Jan 2, 2006")\<close> (which reads the
  local time zone) are parameters. The three non-ASCII signs of the source are their
  UTF-8 bytes. The result is \<open>None\<close> when the call does not return, which can only come
  from \<^verbatim>\<open>formatNumber\<close>.
\<close>

definition NL :: string where
  "NL = [CHR 0x0A]"

definition check_mark :: string where
  "check_mark = [CHR 0xE2, CHR 0x9C, CHR 0x85]"

definition link_sign :: string where
  "link_sign = [CHR 0xF0, CHR 0x9F, CHR 0x94, CHR 0x97]"

definition memo_sign :: string where
  "memo_sign = [CHR 0xF0, CHR 0x9F, CHR 0x93, CHR 0x9D]"

definition decodeHTML :: "(string \<Rightarrow> string) \<Rightarrow> string \<Rightarrow> string" where
  "decodeHTML UnescapeString s = UnescapeString s"

definition answer_less :: "AnswerData \<Rightarrow> AnswerData \<Rightarrow> bool" where
  "answer_less x y =
     (if IsAccepted x \<noteq> IsAccepted y then IsAccepted x else ans_Score x > ans_Score y)"

definition question_part ::
  "(string \<Rightarrow> string) \<Rightarrow> (int \<Rightarrow> string) \<Rightarrow> QuestionData \<Rightarrow> string \<Rightarrow> string" where
  "question_part UnescapeString FormatDate q views =
     (let title = decodeHTML UnescapeString (Title q);
          b = ''# '' @ title @ NL @ NL;
          meta = ''Score: **'' @ Sprintf_d (Score q) @ ''**  |  Views: **'' @ views
                 @ ''**  |  Answers: **'' @ Sprintf_d (AnswerCount q) @ ''**'';
          meta = (if IsAnswered q then meta @ ''  |  '' @ check_mark @ '' Answered'' else meta);
          b = b @ meta @ NL @ NL;
          b = (if length (Tags q) > 0
               then b @ strings_Join (map (\<lambda>t. ''`'' @ t @ ''`'') (Tags q)) ''  '' @ NL @ NL
               else b);
          b = (if DisplayName (Owner q) \<noteq> '''' then
                 (let dateStr = (if CreationDate q > 0 then FormatDate (CreationDate q) else '''');
                      b = b @ ''Asked by **'' @ decodeHTML UnescapeString (DisplayName (Owner q)) @ ''**'';
                      b = (if dateStr \<noteq> '''' then b @ '' on '' @ dateStr else b)
                  in b @ NL @ NL)
               else b);
          b = b @ ''---'' @ NL @ NL;
          body = decodeHTML UnescapeString (BodyMarkdown q);
          b = b @ body @ NL @ NL;
          b = (if Link q \<noteq> '''' then b @ link_sign @ '' '' @ Link q @ NL @ NL else b)
      in b)"

definition answer_block :: "(string \<Rightarrow> string) \<Rightarrow> AnswerData \<Rightarrow> int \<Rightarrow> int \<Rightarrow> string" where
  "answer_block UnescapeString a i shown =
     (let label = ''### Answer '' @ Sprintf_d (i + 1);
          label = (if IsAccepted a then label @ ''  '' @ check_mark @ '' Accepted'' else label);
          label = (if ans_Score a > 0
                   then label @ ''  (Score: '' @ Sprintf_d (ans_Score a) @ '')'' else label);
          b = label @ NL @ NL;
          b = (if DisplayName (ans_Owner a) \<noteq> ''''
               then b @ ''By **'' @ decodeHTML UnescapeString (DisplayName (ans_Owner a)) @ ''**'' @ NL @ NL
               else b);
          ansBody = decodeHTML UnescapeString (ans_BodyMarkdown a);
          b = b @ ansBody @ NL @ NL;
          b = (if i < shown - 1 then b @ ''---'' @ NL @ NL else b)
      in b)"

function answers_loop ::
  "(string \<Rightarrow> string) \<Rightarrow> AnswerData list \<Rightarrow> int \<Rightarrow> int \<Rightarrow> string \<Rightarrow> string" where
  "answers_loop UnescapeString answers shown i b =
     (if i < shown
      then answers_loop UnescapeString answers shown (i + 1)
             (b @ answer_block UnescapeString (answers ! nat i) i shown)
      else b)"
  by pat_completeness auto
termination
  by (relation "measure (\<lambda>(U, answers, shown, i, b). nat (shown - i))") auto

declare answers_loop.simps [simp del]

definition answers_shown :: "int \<Rightarrow> nat \<Rightarrow> int" where
  "answers_shown maxAnswers n =
     (if maxAnswers \<le> 0 \<or> maxAnswers > int n then int n else maxAnswers)"

text \<open>The answers section, from the sorted copy \<^verbatim>\<open>answers\<close> on.\<close>

definition answers_part :: "(string \<Rightarrow> string) \<Rightarrow> AnswerData list \<Rightarrow> int \<Rightarrow> string" where
  "answers_part UnescapeString answers maxAnswers =
     (let shown = answers_shown maxAnswers (length answers);
          b = ''---'' @ NL @ NL;
          b = b @ ''## Top '' @ Sprintf_d shown @ '' Answer(s)'' @ NL @ NL;
          b = answers_loop UnescapeString answers shown 0 b;
          b = (if int (length answers) > shown
               then b @ NL @ ''*('' @ Sprintf_d (int (length answers) - shown)
                    @ '' more answers on Stack Overflow)*'' @ NL
               else b)
      in b)"

definition call_to_action :: "QuestionData \<Rightarrow> string" where
  "call_to_action q =
     (let b = ''---'' @ NL @ NL;
          answerWord = (if AnswerCount q = 1 then ''answer'' else ''answers'');
          b = b @ memo_sign @ '' **'' @ Sprintf_d (AnswerCount q) @ '' '' @ answerWord
              @ ''** available on Stack Overflow:'' @ NL;
          b = b @ Link q @ NL
      in b)"

definition FormatQuestionMarkdown ::
  "(string \<Rightarrow> string) \<Rightarrow> (int \<Rightarrow> string) \<Rightarrow> QuestionData option \<Rightarrow> int \<Rightarrow> string option" where
  "FormatQuestionMarkdown UnescapeString FormatDate q maxAnswers =
     (case q of
        None \<Rightarrow> Some ''''
      | Some q \<Rightarrow>
          Option.bind (formatNumber (ViewCount q)) (\<lambda>views.
            let b = question_part UnescapeString FormatDate q views in
            if length (Answers q) > 0 then
              (let answers = sort_Slice answer_less (Answers q)
               in Some (b @ answers_part UnescapeString answers maxAnswers))
            else if AnswerCount q > 0 \<and> Link q \<noteq> '''' then Some (b @ call_to_action q)
            else Some b))"

subsection \<open>The same function over a store\<close>

text \<open>
  Whether the caller's \<^verbatim>\<open>q.Answers\<close> is changed depends on which backing array
  \<^verbatim>\<open>sort.Slice\<close> swaps in. Here the backing arrays live in a store (a list of arrays, an
  address is an index, \<^verbatim>\<open>make\<close> allocates at the end), a slice is an address with an
  offset and a length, and \<^verbatim>\<open>sort.Slice\<close> rewrites the array of the slice it is given.
  The function never assigns to a field of \<^verbatim>\<open>*q\<close>; the slice elements are the only
  memory it writes.
\<close>

record slice =
  sl_addr :: nat
  sl_off :: nat
  sl_len :: nat

type_synonym store = "AnswerData list list"

definition slice_read :: "store \<Rightarrow> slice \<Rightarrow> AnswerData list" where
  "slice_read st s = take (sl_len s) (drop (sl_off s) (st ! sl_addr s))"

definition zero_OwnerData :: OwnerData where
  "zero_OwnerData = \<lparr>DisplayName = '''', owner_Link = ''''\<rparr>"

definition zero_AnswerData :: AnswerData where
  "zero_AnswerData =
     \<lparr>ans_Owner = zero_OwnerData, IsAccepted = False, ans_LastActivityDate = 0, AnswerID = 0,
      ans_Score = 0, ans_BodyMarkdown = '''', ans_Link = '''', ans_Title = ''''\<rparr>"

definition make_slice :: "store \<Rightarrow> nat \<Rightarrow> slice \<times> store" where
  "make_slice st n =
     (\<lparr>sl_addr = length st, sl_off = 0, sl_len = n\<rparr>, st @ [replicate n zero_AnswerData])"

definition slice_write :: "store \<Rightarrow> slice \<Rightarrow> AnswerData list \<Rightarrow> store" where
  "slice_write st s xs =
     st[sl_addr s := take (sl_off s) (st ! sl_addr s) @ xs
                     @ drop (sl_off s + length xs) (st ! sl_addr s)]"

definition copy_slice :: "store \<Rightarrow> slice \<Rightarrow> slice \<Rightarrow> store" where
  "copy_slice st dst src =
     slice_write st dst (take (min (sl_len dst) (sl_len src)) (slice_read st src))"

definition sort_Slice_in :: "store \<Rightarrow> slice \<Rightarrow> (AnswerData \<Rightarrow> AnswerData \<Rightarrow> bool) \<Rightarrow> store" where
  "sort_Slice_in st s lt = slice_write st s (sort_Slice lt (slice_read st s))"

text \<open>
  \<open>q\<close> holds the fields of \<^verbatim>\<open>*q\<close> other than \<^verbatim>\<open>Answers\<close>, and \<open>hdr\<close> is the slice
  \<^verbatim>\<open>q.Answers\<close>.
\<close>

definition FormatQuestionMarkdown_store ::
  "(string \<Rightarrow> string) \<Rightarrow> (int \<Rightarrow> string) \<Rightarrow> store \<Rightarrow> (QuestionData \<times> slice) option \<Rightarrow> int
   \<Rightarrow> string option \<times> store" where
  "FormatQuestionMarkdown_store UnescapeString FormatDate st q maxAnswers =
     (case q of
        None \<Rightarrow> (Some '''', st)
      | Some (q, hdr) \<Rightarrow>
          (case formatNumber (ViewCount q) of
             None \<Rightarrow> (None, st)
           | Some views \<Rightarrow>
               let b = question_part UnescapeString FormatDate q views in
               if sl_len hdr > 0 then
                 (let (answers, st1) = make_slice st (sl_len hdr);
                      st2 = copy_slice st1 answers hdr;
                      st3 = sort_Slice_in st2 answers answer_less
                  in (Some (b @ answers_part UnescapeString (slice_read st3 answers) maxAnswers), st3))
               else if AnswerCount q > 0 \<and> Link q \<noteq> '''' then (Some (b @ call_to_action q), st)
               else (Some b, st)))"

section \<open>\<^verbatim>\<open>sort.Slice\<close> sorts\<close>

text \<open>
  For a comparison that is a strict weak order, \<open>sort_Slice\<close> returns a permutation of
  its argument in which no element is less than an earlier one. \<open>rearr a b xs ys\<close> says
  that \<open>ys\<close> rearranges \<open>xs\<close> inside the index range \<open>[a, b)\<close> and leaves the rest alone.
  The proof follows the algorithm: insertion sort, partitioning, heapsort, and the main
  loop by induction on the length of the range.
\<close>

definition weak_order :: "('a \<Rightarrow> 'a \<Rightarrow> bool) \<Rightarrow> bool" where
  "weak_order lt =
     ((\<forall>x y. lt x y \<longrightarrow> \<not> lt y x) \<and> (\<forall>x y z. \<not> lt x y \<longrightarrow> \<not> lt y z \<longrightarrow> \<not> lt x z))"

definition sorted_range :: "('a \<Rightarrow> 'a \<Rightarrow> bool) \<Rightarrow> 'a list \<Rightarrow> nat \<Rightarrow> nat \<Rightarrow> bool" where
  "sorted_range lt xs a b = (\<forall>i j. a \<le> i \<and> i < j \<and> j < b \<longrightarrow> \<not> lt (xs ! j) (xs ! i))"

definition rearr :: "nat \<Rightarrow> nat \<Rightarrow> 'a list \<Rightarrow> 'a list \<Rightarrow> bool" where
  "rearr a b xs ys =
     (length ys = length xs \<and> mset ys = mset xs \<and>
      (\<forall>k. k < length xs \<and> (k < a \<or> b \<le> k) \<longrightarrow> ys ! k = xs ! k))"

lemma weak_order_asym: "weak_order lt \<Longrightarrow> lt x y \<Longrightarrow> \<not> lt y x"
  unfolding weak_order_def by blast

lemma weak_order_irrefl: "weak_order lt \<Longrightarrow> \<not> lt x x"
  unfolding weak_order_def by blast

lemma weak_order_le_trans: "weak_order lt \<Longrightarrow> \<not> lt x y \<Longrightarrow> \<not> lt y z \<Longrightarrow> \<not> lt x z"
  unfolding weak_order_def by blast

lemma weak_order_trans: "weak_order lt \<Longrightarrow> lt x y \<Longrightarrow> lt y z \<Longrightarrow> lt x z"
  unfolding weak_order_def by blast

lemma weak_order_lt_le: "weak_order lt \<Longrightarrow> lt x y \<Longrightarrow> \<not> lt z y \<Longrightarrow> lt x z"
  unfolding weak_order_def by blast

lemma weak_order_le_lt: "weak_order lt \<Longrightarrow> \<not> lt y x \<Longrightarrow> lt y z \<Longrightarrow> lt x z"
  unfolding weak_order_def by blast

lemma length_swap [simp]: "length (swap xs i j) = length xs"
  by (simp add: swap_def)

lemma mset_swap_list: "i < length xs \<Longrightarrow> j < length xs \<Longrightarrow> mset (swap xs i j) = mset xs"
  by (simp add: swap_def mset_swap)

lemma nth_swap:
  assumes "p < length xs" and "q < length xs"
  shows "swap xs p q ! n = (if n = p then xs ! q else if n = q then xs ! p else xs ! n)"
  using assms by (auto simp: swap_def nth_list_update)

lemma rearr_refl [simp]: "rearr a b xs xs"
  by (simp add: rearr_def)

lemma rearr_trans: "rearr a b xs ys \<Longrightarrow> rearr a b ys zs \<Longrightarrow> rearr a b xs zs"
  by (auto simp: rearr_def)

lemma rearr_mono: "rearr a' b' xs ys \<Longrightarrow> a \<le> a' \<Longrightarrow> b' \<le> b \<Longrightarrow> rearr a b xs ys"
  by (auto simp: rearr_def)

lemma rearr_length: "rearr a b xs ys \<Longrightarrow> length ys = length xs"
  by (simp add: rearr_def)

lemma rearr_outside: "rearr a b xs ys \<Longrightarrow> k < length xs \<Longrightarrow> k < a \<or> b \<le> k \<Longrightarrow> ys ! k = xs ! k"
  by (simp add: rearr_def)

lemma rearr_swap:
  "a \<le> i \<Longrightarrow> i < b \<Longrightarrow> a \<le> j \<Longrightarrow> j < b \<Longrightarrow> b \<le> length xs \<Longrightarrow> rearr a b xs (swap xs i j)"
  by (auto simp: rearr_def mset_swap_list nth_swap)

lemma slice_split:
  assumes "a \<le> b"
  shows "zs = take a zs @ take (b - a) (drop a zs) @ drop b zs"
proof -
  have "drop a zs = take (b - a) (drop a zs) @ drop (b - a) (drop a zs)"
    by (rule append_take_drop_id[symmetric])
  moreover have "drop (b - a) (drop a zs) = drop b zs" using assms by simp
  moreover have "zs = take a zs @ drop a zs" by simp
  ultimately show ?thesis by simp
qed

lemma rearr_slice_mset:
  assumes "rearr a b xs ys" and "a \<le> b" and "b \<le> length xs"
  shows "mset (take (b - a) (drop a ys)) = mset (take (b - a) (drop a xs))"
proof -
  have len: "length ys = length xs" using assms(1) by (simp add: rearr_def)
  have t: "take a ys = take a xs"
    using assms len by (intro nth_equalityI) (auto simp: rearr_def)
  have d: "drop b ys = drop b xs"
    using assms len by (intro nth_equalityI) (auto simp: rearr_def)
  have "mset ys = mset (take a ys @ take (b - a) (drop a ys) @ drop b ys)"
    using slice_split[OF assms(2), of ys] by simp
  then have 1: "mset ys = mset (take a xs) + mset (take (b - a) (drop a ys)) + mset (drop b xs)"
    by (simp add: t d)
  have "mset xs = mset (take a xs @ take (b - a) (drop a xs) @ drop b xs)"
    using slice_split[OF assms(2), of xs] by simp
  then have 2: "mset xs = mset (take a xs) + mset (take (b - a) (drop a xs)) + mset (drop b xs)"
    by simp
  have "mset ys = mset xs" using assms(1) by (simp add: rearr_def)
  with 1 2 show ?thesis by simp
qed

lemma slice_set:
  assumes "a \<le> b" and "b \<le> length xs"
  shows "set (take (b - a) (drop a xs)) = {xs ! k | k. a \<le> k \<and> k < b}"
proof (intro set_eqI iffI)
  fix x assume "x \<in> set (take (b - a) (drop a xs))"
  then obtain i where i: "i < length (take (b - a) (drop a xs))" "x = take (b - a) (drop a xs) ! i"
    by (auto simp: in_set_conv_nth)
  then have "i < b - a" by simp
  then have "x = xs ! (a + i)" using i assms by simp
  then show "x \<in> {xs ! k | k. a \<le> k \<and> k < b}"
    using \<open>i < b - a\<close> by (intro CollectI exI[of _ "a + i"]) auto
next
  fix x assume "x \<in> {xs ! k | k. a \<le> k \<and> k < b}"
  then obtain k where k: "a \<le> k" "k < b" "x = xs ! k" by auto
  have "k - a < length (take (b - a) (drop a xs))" using k assms by simp
  moreover have "take (b - a) (drop a xs) ! (k - a) = x" using k assms by simp
  ultimately show "x \<in> set (take (b - a) (drop a xs))"
    by (metis nth_mem)
qed

lemma rearr_range_set:
  assumes "rearr a b xs ys" and "a \<le> b" and "b \<le> length xs"
  shows "{ys ! k | k. a \<le> k \<and> k < b} = {xs ! k | k. a \<le> k \<and> k < b}"
proof -
  have "set (take (b - a) (drop a ys)) = set (take (b - a) (drop a xs))"
    using rearr_slice_mset[OF assms] by (rule mset_eq_setD)
  then show ?thesis
    using slice_set[OF assms(2,3)] slice_set[of a b ys] assms by (simp add: rearr_def)
qed

lemma rearr_all:
  assumes "rearr a b xs ys" and "a \<le> b" and "b \<le> length xs"
    and "\<forall>k. a \<le> k \<and> k < b \<longrightarrow> P (xs ! k)" and "a \<le> k" and "k < b"
  shows "P (ys ! k)"
proof -
  have "ys ! k \<in> {ys ! k | k. a \<le> k \<and> k < b}" using assms(5,6) by auto
  then have "ys ! k \<in> {xs ! k | k. a \<le> k \<and> k < b}"
    using rearr_range_set[OF assms(1-3)] by simp
  then show ?thesis using assms(4) by auto
qed

lemma insertion_shift_correct:
  assumes wo: "weak_order lt"
  shows "a \<le> j \<Longrightarrow> j \<le> m \<Longrightarrow> m < length xs \<Longrightarrow>
         (\<forall>i k. a \<le> i \<and> i < k \<and> k \<le> m \<and> i \<noteq> j \<and> k \<noteq> j \<longrightarrow> \<not> lt (xs ! k) (xs ! i)) \<Longrightarrow>
         (\<forall>k. j < k \<and> k \<le> m \<longrightarrow> \<not> lt (xs ! k) (xs ! j)) \<Longrightarrow>
         rearr a (Suc m) xs (insertion_shift lt a xs j) \<and>
         sorted_range lt (insertion_shift lt a xs j) a (Suc m) \<and>
         insertion_shift lt a xs j ! a = (if a < j \<and> lt (xs ! j) (xs ! a) then xs ! j else xs ! a)"
proof (induction j arbitrary: xs)
  case 0
  then have "a = 0" by simp
  have "sorted_range lt xs a (Suc m)"
    unfolding sorted_range_def
  proof (intro allI impI)
    fix i k assume ik: "a \<le> i \<and> i < k \<and> k < Suc m"
    show "\<not> lt (xs ! k) (xs ! i)"
    proof (cases "i = 0")
      case True
      then show ?thesis using ik "0.prems"(5) by auto
    next
      case False
      then show ?thesis using ik "0.prems"(4) by auto
    qed
  qed
  then show ?case using \<open>a = 0\<close> by simp
next
  case (Suc j)
  let ?x = "xs ! Suc j"
  show ?case
  proof (cases "a < Suc j \<and> lt ?x (xs ! j)")
    case True
    let ?xs' = "swap xs (Suc j) j"
    have lenj: "Suc j < length xs" "j < length xs" using Suc.prems by auto
    have nth': "\<And>k. ?xs' ! k = (if k = Suc j then xs ! j else if k = j then ?x else xs ! k)"
      using lenj by (simp add: nth_swap)
    have eq: "insertion_shift lt a xs (Suc j) = insertion_shift lt a ?xs' j"
      using True by simp
    have p1: "a \<le> j" using True by simp
    have p2: "j \<le> m" using Suc.prems by simp
    have p3: "m < length ?xs'" using Suc.prems by simp
    have p4: "\<forall>i k. a \<le> i \<and> i < k \<and> k \<le> m \<and> i \<noteq> j \<and> k \<noteq> j \<longrightarrow> \<not> lt (?xs' ! k) (?xs' ! i)"
    proof (intro allI impI)
      fix i k assume ik: "a \<le> i \<and> i < k \<and> k \<le> m \<and> i \<noteq> j \<and> k \<noteq> j"
      show "\<not> lt (?xs' ! k) (?xs' ! i)"
      proof (cases "k = Suc j")
        case kS: True
        then have "i < j" using ik by simp
        then have "\<not> lt (xs ! j) (xs ! i)" using Suc.prems(4) ik p2 by auto
        then show ?thesis using kS \<open>i < j\<close> by (simp add: nth')
      next
        case kS: False
        show ?thesis
        proof (cases "i = Suc j")
          case True
          then have "\<not> lt (xs ! k) (xs ! j)" using Suc.prems(4) ik p1 kS by auto
          then show ?thesis using True ik kS by (simp add: nth')
        next
          case False
          then have "\<not> lt (xs ! k) (xs ! i)" using Suc.prems(4) ik kS by auto
          then show ?thesis using False ik kS by (simp add: nth')
        qed
      qed
    qed
    have p5: "\<forall>k. j < k \<and> k \<le> m \<longrightarrow> \<not> lt (?xs' ! k) (?xs' ! j)"
    proof (intro allI impI)
      fix k assume k: "j < k \<and> k \<le> m"
      show "\<not> lt (?xs' ! k) (?xs' ! j)"
      proof (cases "k = Suc j")
        case True
        then show ?thesis using weak_order_asym[OF wo] \<open>a < Suc j \<and> lt ?x (xs ! j)\<close> by (simp add: nth')
      next
        case False
        then have "\<not> lt (xs ! k) ?x" using Suc.prems(5) k by auto
        then show ?thesis using False k by (simp add: nth')
      qed
    qed
    note IH = Suc.IH[OF p1 p2 p3 p4 p5]
    have r: "rearr a (Suc m) xs ?xs'"
      using Suc.prems True by (intro rearr_swap) auto
    have first: "insertion_shift lt a ?xs' j ! a = (if lt ?x (xs ! a) then ?x else xs ! a)"
    proof (cases "a < j")
      case True
      then show ?thesis using IH by (simp add: nth')
    next
      case False
      then have "a = j" using p1 by simp
      then show ?thesis using IH \<open>a < Suc j \<and> lt ?x (xs ! j)\<close> by (simp add: nth')
    qed
    show ?thesis
      using IH r first True rearr_trans[OF r] unfolding eq by auto
  next
    case False
    have res: "insertion_shift lt a xs (Suc j) = xs" using False by auto
    have pre: "\<And>i. a \<le> i \<Longrightarrow> i < Suc j \<Longrightarrow> \<not> lt ?x (xs ! i)"
    proof -
      fix i assume i: "a \<le> i" "i < Suc j"
      then have "a < Suc j" by simp
      then have nl: "\<not> lt ?x (xs ! j)" using False by simp
      show "\<not> lt ?x (xs ! i)"
      proof (cases "i = j")
        case True
        then show ?thesis using nl by simp
      next
        case False
        then have "\<not> lt (xs ! j) (xs ! i)" using Suc.prems(4) i Suc.prems(2) by auto
        then show ?thesis using weak_order_le_trans[OF wo nl] by blast
      qed
    qed
    have "sorted_range lt xs a (Suc m)"
      unfolding sorted_range_def
    proof (intro allI impI)
      fix i k assume ik: "a \<le> i \<and> i < k \<and> k < Suc m"
      show "\<not> lt (xs ! k) (xs ! i)"
      proof (cases "k = Suc j")
        case True
        then show ?thesis using pre ik by auto
      next
        case kS: False
        show ?thesis
        proof (cases "i = Suc j")
          case True
          then show ?thesis using Suc.prems(5) ik by auto
        next
          case False
          then show ?thesis using Suc.prems(4) ik kS by auto
        qed
      qed
    qed
    moreover have "\<not> (a < Suc j \<and> lt ?x (xs ! a))"
      using pre[of a] by auto
    ultimately show ?thesis unfolding res by auto
  qed
qed

definition first_min :: "('a \<Rightarrow> 'a \<Rightarrow> bool) \<Rightarrow> 'a list \<Rightarrow> nat \<Rightarrow> nat \<Rightarrow> nat \<Rightarrow> bool" where
  "first_min lt xs a n m =
     (a \<le> m \<and> m < n \<and> (\<forall>k. a \<le> k \<and> k < n \<longrightarrow> \<not> lt (xs ! k) (xs ! m)) \<and>
      (\<forall>k. a \<le> k \<and> k < m \<longrightarrow> lt (xs ! m) (xs ! k)))"

lemma first_min_step:
  assumes wo: "weak_order lt" and fm: "first_min lt xs a i m"
  shows "first_min lt xs a (Suc i) (if lt (xs ! i) (xs ! m) then i else m)"
proof (cases "lt (xs ! i) (xs ! m)")
  case True
  have "\<And>k. a \<le> k \<Longrightarrow> k < Suc i \<Longrightarrow> \<not> lt (xs ! k) (xs ! i)"
  proof -
    fix k assume k: "a \<le> k" "k < Suc i"
    show "\<not> lt (xs ! k) (xs ! i)"
    proof (cases "k = i")
      case True
      then show ?thesis using weak_order_irrefl[OF wo] by simp
    next
      case False
      then have "\<not> lt (xs ! k) (xs ! m)" using fm k by (auto simp: first_min_def)
      then have "lt (xs ! i) (xs ! k)" using weak_order_lt_le[OF wo True] by blast
      then show ?thesis using weak_order_asym[OF wo] by blast
    qed
  qed
  moreover have "\<And>k. a \<le> k \<Longrightarrow> k < i \<Longrightarrow> lt (xs ! i) (xs ! k)"
  proof -
    fix k assume k: "a \<le> k" "k < i"
    then have "\<not> lt (xs ! k) (xs ! m)" using fm by (auto simp: first_min_def)
    then show "lt (xs ! i) (xs ! k)" using weak_order_lt_le[OF wo True] by blast
  qed
  moreover have "a \<le> i" using fm by (auto simp: first_min_def)
  ultimately show ?thesis using True by (simp add: first_min_def)
next
  case False
  have "\<And>k. a \<le> k \<Longrightarrow> k < Suc i \<Longrightarrow> \<not> lt (xs ! k) (xs ! m)"
  proof -
    fix k assume k: "a \<le> k" "k < Suc i"
    show "\<not> lt (xs ! k) (xs ! m)"
      using False fm k by (cases "k = i") (auto simp: first_min_def)
  qed
  then show ?thesis using False fm by (simp add: first_min_def)
qed

lemma first_min_single:
  assumes wo: "weak_order lt"
  shows "first_min lt xs a (a + 1) a"
proof -
  have "\<And>k. a \<le> k \<Longrightarrow> k < a + 1 \<Longrightarrow> \<not> lt (xs ! k) (xs ! a)"
  proof -
    fix k assume "a \<le> k" "k < a + 1"
    then have "k = a" by simp
    then show "\<not> lt (xs ! k) (xs ! a)" using weak_order_irrefl[OF wo] by simp
  qed
  then show ?thesis by (auto simp: first_min_def)
qed

lemma sorted_range_single: "sorted_range lt xs a (a + 1)"
  by (auto simp: sorted_range_def)

lemma insertionSort_loop_correct:
  "weak_order lt \<Longrightarrow> a < i \<Longrightarrow> i \<le> b \<Longrightarrow> b \<le> length xs \<Longrightarrow> rearr a i xs ys \<Longrightarrow>
   sorted_range lt ys a i \<Longrightarrow> first_min lt xs a i m \<Longrightarrow> ys ! a = xs ! m \<Longrightarrow>
   rearr a b xs (insertionSort_loop lt ys a b i) \<and>
   sorted_range lt (insertionSort_loop lt ys a b i) a b \<and>
   (\<exists>m'. first_min lt xs a b m' \<and> insertionSort_loop lt ys a b i ! a = xs ! m')"
proof (induction lt ys a b i arbitrary: m rule: insertionSort_loop.induct)
  case (1 lt ys a b i)
  note wo = "1.prems"(1) and ai = "1.prems"(2) and ib = "1.prems"(3) and bl = "1.prems"(4)
    and r0 = "1.prems"(5) and s0 = "1.prems"(6) and fm0 = "1.prems"(7) and hd0 = "1.prems"(8)
  show ?case
  proof (cases "i < b")
    case False
    then have "i = b" using ib by simp
    moreover have "insertionSort_loop lt ys a b i = ys"
      using False by (subst insertionSort_loop.simps) simp
    ultimately show ?thesis using r0 s0 fm0 hd0 by auto
  next
    case True
    let ?ys' = "insertion_shift lt a ys i"
    have len: "length ys = length xs" using r0 by (simp add: rearr_def)
    have ilen: "i < length ys" using True bl len by simp
    have s1: "\<forall>j k. a \<le> j \<and> j < k \<and> k \<le> i \<and> j \<noteq> i \<and> k \<noteq> i \<longrightarrow> \<not> lt (ys ! k) (ys ! j)"
      using s0 by (auto simp: sorted_range_def)
    have s2: "\<forall>k. i < k \<and> k \<le> i \<longrightarrow> \<not> lt (ys ! k) (ys ! i)" by auto
    have ai': "a \<le> i" using ai by simp
    have sh: "rearr a (Suc i) ys ?ys'" "sorted_range lt ?ys' a (Suc i)"
      "?ys' ! a = (if a < i \<and> lt (ys ! i) (ys ! a) then ys ! i else ys ! a)"
      using insertion_shift_correct[OF wo ai' order_refl ilen s1 s2] by auto
    have yi: "ys ! i = xs ! i"
      using r0 ilen len by (simp add: rearr_def)
    have r: "rearr a (Suc i) xs ?ys'"
      using rearr_trans[OF rearr_mono[OF r0, of a "Suc i"] sh(1)] by simp
    let ?m' = "if lt (xs ! i) (xs ! m) then i else m"
    have fm: "first_min lt xs a (Suc i) ?m'"
      by (rule first_min_step[OF wo fm0])
    have hd: "?ys' ! a = xs ! ?m'"
      using sh(3) yi hd0 ai by simp
    have eq: "insertionSort_loop lt ys a b i = insertionSort_loop lt ?ys' a b (Suc i)"
      using True by (subst insertionSort_loop.simps) simp
    have "a < Suc i" "Suc i \<le> b" using ai True by auto
    from "1.IH"[OF True wo this bl r sh(2) fm hd] show ?thesis
      unfolding eq .
  qed
qed

lemma insertionSort_func_all:
  assumes wo: "weak_order lt" and "a < b" and "b \<le> length xs"
  shows "rearr a b xs (insertionSort_func lt xs a b) \<and>
         sorted_range lt (insertionSort_func lt xs a b) a b \<and>
         (\<exists>m. first_min lt xs a b m \<and> insertionSort_func lt xs a b ! a = xs ! m)"
proof -
  have "a < a + 1" "a + 1 \<le> b" using assms(2) by auto
  from insertionSort_loop_correct[OF wo this assms(3) rearr_refl sorted_range_single
      first_min_single[OF wo] refl]
  show ?thesis unfolding insertionSort_func_def .
qed

lemma insertionSort_func_correct:
  assumes wo: "weak_order lt" and "a \<le> b" and "b \<le> length xs"
  shows "rearr a b xs (insertionSort_func lt xs a b) \<and>
         sorted_range lt (insertionSort_func lt xs a b) a b"
proof (cases "a < b")
  case True
  then show ?thesis using insertionSort_func_all[OF wo True assms(3)] by simp
next
  case False
  then have "insertionSort_func lt xs a b = xs"
    unfolding insertionSort_func_def by (subst insertionSort_loop.simps) simp
  then show ?thesis using False assms(2) by (auto simp: sorted_range_def)
qed

lemma scan_up_all: "i \<le> k \<Longrightarrow> k < scan_up P xs i j \<Longrightarrow> P (xs ! k)"
proof (induction P xs i j rule: scan_up.induct)
  case (1 P xs i j)
  show ?case
  proof (cases "i \<le> j \<and> P (xs ! i)")
    case True
    then have eq: "scan_up P xs i j = scan_up P xs (i + 1) j"
      by (subst scan_up.simps) simp
    show ?thesis
    proof (cases "k = i")
      case True
      then show ?thesis using \<open>i \<le> j \<and> P (xs ! i)\<close> by simp
    next
      case False
      then show ?thesis using "1.IH"[OF True] "1.prems" eq by simp
    qed
  next
    case False
    then have "scan_up P xs i j = i" by (subst scan_up.simps) auto
    then show ?thesis using "1.prems" by simp
  qed
qed

lemma scan_down_all: "scan_down P xs i j < k \<Longrightarrow> k \<le> j \<Longrightarrow> P (xs ! k)"
proof (induction j)
  case 0
  then show ?case by simp
next
  case (Suc j)
  show ?case
  proof (cases "i \<le> Suc j \<and> P (xs ! Suc j)")
    case True
    then show ?thesis using Suc by (cases "k = Suc j") auto
  next
    case False
    then show ?thesis using Suc.prems by auto
  qed
qed

lemma partition_loop_correct:
  "weak_order lt \<Longrightarrow> a < i \<Longrightarrow> i \<le> Suc j \<Longrightarrow> j < b \<Longrightarrow> b \<le> length xs \<Longrightarrow>
   (\<forall>k. a < k \<and> k < i \<longrightarrow> lt (xs ! k) (xs ! a)) \<Longrightarrow>
   (\<forall>k. j < k \<and> k < b \<longrightarrow> \<not> lt (xs ! k) (xs ! a)) \<Longrightarrow>
   partition_loop lt xs a i j = (ys, m) \<Longrightarrow>
   rearr (Suc a) b xs ys \<and> i \<le> Suc m \<and> m \<le> j \<and>
   (\<forall>k. a < k \<and> k \<le> m \<longrightarrow> lt (ys ! k) (xs ! a)) \<and>
   (\<forall>k. m < k \<and> k < b \<longrightarrow> \<not> lt (ys ! k) (xs ! a))"
proof (induction lt xs a i j arbitrary: ys m rule: partition_loop.induct)
  case (1 lt xs a i j)
  note wo = "1.prems"(1) and ai = "1.prems"(2) and ij = "1.prems"(3) and jb = "1.prems"(4)
    and bl = "1.prems"(5) and L = "1.prems"(6) and R = "1.prems"(7) and res = "1.prems"(8)
  define i1 where "i1 = scan_up (\<lambda>x. lt x (xs ! a)) xs i j"
  define j1 where "j1 = scan_down (\<lambda>x. \<not> lt x (xs ! a)) xs i1 j"
  have i1: "i \<le> i1" "i1 \<le> Suc j"
    using ij by (simp_all add: i1_def scan_up_ge scan_up_le)
  have j1: "j1 \<le> j" "i1 \<le> Suc j1"
    using i1 by (simp_all add: j1_def scan_down_le scan_down_ge)
  have L1: "\<forall>k. a < k \<and> k < i1 \<longrightarrow> lt (xs ! k) (xs ! a)"
  proof (intro allI impI)
    fix k assume k: "a < k \<and> k < i1"
    show "lt (xs ! k) (xs ! a)"
    proof (cases "k < i")
      case True
      then show ?thesis using L k by simp
    next
      case False
      then show ?thesis
        using scan_up_all[of i k "\<lambda>x. lt x (xs ! a)" xs j] k by (simp add: i1_def)
    qed
  qed
  have R1: "\<forall>k. j1 < k \<and> k < b \<longrightarrow> \<not> lt (xs ! k) (xs ! a)"
  proof (intro allI impI)
    fix k assume k: "j1 < k \<and> k < b"
    show "\<not> lt (xs ! k) (xs ! a)"
    proof (cases "j < k")
      case True
      then show ?thesis using R k by simp
    next
      case False
      then show ?thesis
        using scan_down_all[of "\<lambda>x. \<not> lt x (xs ! a)" xs i1 j k] k by (simp add: j1_def)
    qed
  qed
  show ?case
  proof (cases "i1 > j1")
    case True
    then have "ys = xs" "m = j1"
      using res by (subst (asm) partition_loop.simps, auto simp add: i1_def j1_def Let_def)+
    moreover have "Suc j1 = i1" using True j1 by simp
    ultimately show ?thesis using i1 j1 L1 R1 by auto
  next
    case False
    then have eq: "partition_loop lt (swap xs i1 j1) a (i1 + 1) (j1 - 1) = (ys, m)"
      using res by (subst (asm) partition_loop.simps) (simp add: i1_def j1_def Let_def)
    have "0 < i" using ai by simp
    have lt': "i1 < j1"
      using scans_cross[OF i1_def j1_def \<open>0 < i\<close>] False by simp
    have ni: "\<not> lt (xs ! i1) (xs ! a)"
      using scan_up_stop[of "\<lambda>x. lt x (xs ! a)" xs i j] lt' j1 by (simp add: i1_def)
    have "0 < i1" using i1 \<open>0 < i\<close> by simp
    then have nj: "lt (xs ! j1) (xs ! a)"
      using scan_down_stop[of i1 "\<lambda>x. \<not> lt x (xs ! a)" xs j] lt' by (simp add: j1_def)
    let ?xs' = "swap xs i1 j1"
    have in_range: "i1 < length xs" "j1 < length xs" using lt' j1 jb bl by auto
    have nth': "\<And>k. ?xs' ! k = (if k = i1 then xs ! j1 else if k = j1 then xs ! i1 else xs ! k)"
      using in_range by (simp add: nth_swap)
    have na: "a \<noteq> i1" "a \<noteq> j1" using ai i1 lt' by auto
    have a': "?xs' ! a = xs ! a" using na by (simp add: nth')
    have q1: "a < i1 + 1" using ai i1 by simp
    have q2: "i1 + 1 \<le> Suc (j1 - 1)" using lt' by simp
    have q3: "j1 - 1 < b" using j1 jb by simp
    have q4: "b \<le> length ?xs'" using bl by simp
    have q5: "\<forall>k. a < k \<and> k < i1 + 1 \<longrightarrow> lt (?xs' ! k) (?xs' ! a)"
    proof (intro allI impI)
      fix k assume k: "a < k \<and> k < i1 + 1"
      show "lt (?xs' ! k) (?xs' ! a)"
        using k L1 nj lt' na by (cases "k = i1") (auto simp: nth')
    qed
    have q6: "\<forall>k. j1 - 1 < k \<and> k < b \<longrightarrow> \<not> lt (?xs' ! k) (?xs' ! a)"
    proof (intro allI impI)
      fix k assume k: "j1 - 1 < k \<and> k < b"
      show "\<not> lt (?xs' ! k) (?xs' ! a)"
        using k R1 ni lt' na by (cases "k = j1") (auto simp: nth')
    qed
    have r: "rearr (Suc a) b xs ?xs'"
      using ai i1 lt' j1 jb bl by (intro rearr_swap) auto
    from "1.IH"[OF i1_def j1_def False wo q1 q2 q3 q4 q5 q6 eq]
    have IH: "rearr (Suc a) b ?xs' ys" "i1 + 1 \<le> Suc m" "m \<le> j1 - 1"
      "\<forall>k. a < k \<and> k \<le> m \<longrightarrow> lt (ys ! k) (xs ! a)"
      "\<forall>k. m < k \<and> k < b \<longrightarrow> \<not> lt (ys ! k) (xs ! a)"
      by (simp_all add: a')
    show ?thesis
      using rearr_trans[OF r IH(1)] IH(2-5) i1 j1 lt' by auto
  qed
qed

lemma partition_func_correct:
  assumes wo: "weak_order lt" and ap: "a \<le> pivot" and pb: "pivot < b" and bl: "b \<le> length xs"
    and res: "partition_func lt xs a b pivot = (ys, mid, alr)"
  shows "rearr a b xs ys \<and> a \<le> mid \<and> mid < b \<and> ys ! mid = xs ! pivot \<and>
         (\<forall>k. a \<le> k \<and> k < mid \<longrightarrow> lt (ys ! k) (ys ! mid)) \<and>
         (\<forall>k. mid < k \<and> k < b \<longrightarrow> \<not> lt (ys ! k) (ys ! mid))"
proof -
  define xs1 where "xs1 = swap xs a pivot"
  define p where "p = xs ! pivot"
  define i where "i = scan_up (\<lambda>x. lt x (xs1 ! a)) xs1 (a + 1) (b - 1)"
  define j where "j = scan_down (\<lambda>x. \<not> lt x (xs1 ! a)) xs1 i (b - 1)"
  have ab: "a < b" using ap pb by simp
  have len1: "length xs1 = length xs" by (simp add: xs1_def)
  have r1: "rearr a b xs xs1"
    unfolding xs1_def using ap pb bl ab by (intro rearr_swap) auto
  have pa: "xs1 ! a = p"
    using ap pb bl by (simp add: xs1_def p_def nth_swap)
  have i: "a + 1 \<le> i" "i \<le> b"
    using ab scan_up_le[of "a + 1" "b - 1" "\<lambda>x. lt x (xs1 ! a)" xs1]
    by (simp_all add: i_def scan_up_ge)
  have j: "j \<le> b - 1" "i \<le> Suc j"
    using i ab by (simp_all add: j_def scan_down_le scan_down_ge)
  have L: "\<forall>k. a < k \<and> k < i \<longrightarrow> lt (xs1 ! k) p"
    using scan_up_all[of "a + 1" _ "\<lambda>x. lt x (xs1 ! a)" xs1 "b - 1"] by (auto simp: i_def pa)
  have R: "\<forall>k. j < k \<and> k < b \<longrightarrow> \<not> lt (xs1 ! k) p"
    using scan_down_all[of "\<lambda>x. \<not> lt x (xs1 ! a)" xs1 i "b - 1"] by (auto simp: j_def pa)
  show ?thesis
  proof (cases "i > j")
    case True
    then have ys: "ys = swap xs1 j a" and mid: "mid = j"
      using res by (auto simp add: partition_func_def Let_def xs1_def i_def j_def)
    have ij: "i = Suc j" using True j by simp
    have ja: "a \<le> j" "j < b" using ij i ab by auto
    have nth': "\<And>k. ys ! k = (if k = j then xs1 ! a else if k = a then xs1 ! j else xs1 ! k)"
      unfolding ys using ja bl len1 ab by (simp add: nth_swap)
    have "rearr a b xs1 ys"
      unfolding ys using ja bl len1 ab by (intro rearr_swap) auto
    then have "rearr a b xs ys" using rearr_trans[OF r1] by simp
    moreover have "ys ! mid = xs ! pivot" by (simp add: mid nth' pa p_def)
    moreover have "\<forall>k. a \<le> k \<and> k < mid \<longrightarrow> lt (ys ! k) (ys ! mid)"
    proof (intro allI impI)
      fix k assume k: "a \<le> k \<and> k < mid"
      show "lt (ys ! k) (ys ! mid)"
        using k L ij by (cases "k = a") (auto simp: nth' mid pa)
    qed
    moreover have "\<forall>k. mid < k \<and> k < b \<longrightarrow> \<not> lt (ys ! k) (ys ! mid)"
      using R ja by (auto simp: nth' mid pa)
    ultimately show ?thesis using ja mid by simp
  next
    case False
    obtain xs2 j2 where pl: "partition_loop lt (swap xs1 i j) a (i + 1) (j - 1) = (xs2, j2)"
      by (cases "partition_loop lt (swap xs1 i j) a (i + 1) (j - 1)")
    have ys: "ys = swap xs2 j2 a" and mid: "mid = j2"
      using res False pl by (auto simp add: partition_func_def Let_def xs1_def i_def j_def)
    have "0 < a + 1" by simp
    have lt': "i < j"
      using scans_cross[OF i_def j_def \<open>0 < a + 1\<close>] False by simp
    have jb: "j < b" using j ab by simp
    have ni: "\<not> lt (xs1 ! i) p"
      using scan_up_stop[of "\<lambda>x. lt x (xs1 ! a)" xs1 "a + 1" "b - 1"] lt' j by (simp add: i_def pa)
    have "0 < i" using i by simp
    then have nj: "lt (xs1 ! j) p"
      using scan_down_stop[of i "\<lambda>x. \<not> lt x (xs1 ! a)" xs1 "b - 1"] lt' by (simp add: j_def pa)
    let ?xs' = "swap xs1 i j"
    have nth1: "\<And>k. ?xs' ! k = (if k = i then xs1 ! j else if k = j then xs1 ! i else xs1 ! k)"
      using lt' jb bl len1 by (simp add: nth_swap)
    have na: "a \<noteq> i" "a \<noteq> j" using i lt' by auto
    have a': "?xs' ! a = p" using na by (simp add: nth1 pa)
    have r2: "rearr a b xs1 ?xs'"
      using i lt' jb bl len1 by (intro rearr_swap) auto
    have q1: "a < i + 1" using i by simp
    have q2: "i + 1 \<le> Suc (j - 1)" using lt' by simp
    have q3: "j - 1 < b" using jb by simp
    have q4: "b \<le> length ?xs'" using bl len1 by simp
    have q5: "\<forall>k. a < k \<and> k < i + 1 \<longrightarrow> lt (?xs' ! k) (?xs' ! a)"
    proof (intro allI impI)
      fix k assume k: "a < k \<and> k < i + 1"
      show "lt (?xs' ! k) (?xs' ! a)"
        unfolding a' using k L nj lt' by (cases "k = i") (auto simp: nth1)
    qed
    have q6: "\<forall>k. j - 1 < k \<and> k < b \<longrightarrow> \<not> lt (?xs' ! k) (?xs' ! a)"
    proof (intro allI impI)
      fix k assume k: "j - 1 < k \<and> k < b"
      show "\<not> lt (?xs' ! k) (?xs' ! a)"
        unfolding a' using k R ni lt' by (cases "k = j") (auto simp: nth1)
    qed
    from partition_loop_correct[OF wo q1 q2 q3 q4 q5 q6 pl]
    have PL: "rearr (Suc a) b ?xs' xs2" "i + 1 \<le> Suc j2" "j2 \<le> j - 1"
      "\<forall>k. a < k \<and> k \<le> j2 \<longrightarrow> lt (xs2 ! k) p"
      "\<forall>k. j2 < k \<and> k < b \<longrightarrow> \<not> lt (xs2 ! k) p"
      by (simp_all add: a')
    have len2: "length xs2 = length xs" using PL(1) len1 by (simp add: rearr_def)
    have x2a: "xs2 ! a = p"
      using PL(1) ab bl len1 a' by (simp add: rearr_def)
    have j2: "a < j2" "j2 < b" using PL(2,3) i jb by auto
    have nth': "\<And>k. ys ! k = (if k = j2 then xs2 ! a else if k = a then xs2 ! j2 else xs2 ! k)"
      unfolding ys using j2 bl len2 ab by (simp add: nth_swap)
    have "rearr a b xs2 ys"
      unfolding ys using j2 bl len2 ab by (intro rearr_swap) auto
    then have "rearr a b xs ys"
      using rearr_trans[OF r1 rearr_trans[OF r2 rearr_trans[OF rearr_mono[OF PL(1), of a b]]]] by simp
    moreover have "ys ! mid = xs ! pivot" by (simp add: mid nth' x2a p_def)
    moreover have "\<forall>k. a \<le> k \<and> k < mid \<longrightarrow> lt (ys ! k) (ys ! mid)"
    proof (intro allI impI)
      fix k assume k: "a \<le> k \<and> k < mid"
      show "lt (ys ! k) (ys ! mid)"
        using k PL(4) j2 by (cases "k = a") (auto simp: nth' mid x2a)
    qed
    moreover have "\<forall>k. mid < k \<and> k < b \<longrightarrow> \<not> lt (ys ! k) (ys ! mid)"
      using PL(5) j2 by (auto simp: nth' mid x2a)
    ultimately show ?thesis using j2 mid by simp
  qed
qed

lemma partitionEqual_loop_correct:
  "a < i \<Longrightarrow> i \<le> Suc j \<Longrightarrow> j < b \<Longrightarrow> b \<le> length xs \<Longrightarrow>
   (\<forall>k. a < k \<and> k < i \<longrightarrow> \<not> lt (xs ! a) (xs ! k)) \<Longrightarrow>
   (\<forall>k. j < k \<and> k < b \<longrightarrow> lt (xs ! a) (xs ! k)) \<Longrightarrow>
   partitionEqual_loop lt xs a i j = (ys, m) \<Longrightarrow>
   rearr (Suc a) b xs ys \<and> i \<le> m \<and> m \<le> Suc j \<and>
   (\<forall>k. a < k \<and> k < m \<longrightarrow> \<not> lt (xs ! a) (ys ! k)) \<and>
   (\<forall>k. m \<le> k \<and> k < b \<longrightarrow> lt (xs ! a) (ys ! k))"
proof (induction lt xs a i j arbitrary: ys m rule: partitionEqual_loop.induct)
  case (1 lt xs a i j)
  note ai = "1.prems"(1) and ij = "1.prems"(2) and jb = "1.prems"(3)
    and bl = "1.prems"(4) and L = "1.prems"(5) and R = "1.prems"(6) and res = "1.prems"(7)
  define i1 where "i1 = scan_up (\<lambda>x. \<not> lt (xs ! a) x) xs i j"
  define j1 where "j1 = scan_down (\<lambda>x. lt (xs ! a) x) xs i1 j"
  have i1: "i \<le> i1" "i1 \<le> Suc j"
    using ij by (simp_all add: i1_def scan_up_ge scan_up_le)
  have j1: "j1 \<le> j" "i1 \<le> Suc j1"
    using i1 by (simp_all add: j1_def scan_down_le scan_down_ge)
  have L1: "\<forall>k. a < k \<and> k < i1 \<longrightarrow> \<not> lt (xs ! a) (xs ! k)"
  proof (intro allI impI)
    fix k assume k: "a < k \<and> k < i1"
    show "\<not> lt (xs ! a) (xs ! k)"
    proof (cases "k < i")
      case True
      then show ?thesis using L k by simp
    next
      case False
      then show ?thesis
        using scan_up_all[of i k "\<lambda>x. \<not> lt (xs ! a) x" xs j] k by (simp add: i1_def)
    qed
  qed
  have R1: "\<forall>k. j1 < k \<and> k < b \<longrightarrow> lt (xs ! a) (xs ! k)"
  proof (intro allI impI)
    fix k assume k: "j1 < k \<and> k < b"
    show "lt (xs ! a) (xs ! k)"
    proof (cases "j < k")
      case True
      then show ?thesis using R k by simp
    next
      case False
      then show ?thesis
        using scan_down_all[of "\<lambda>x. lt (xs ! a) x" xs i1 j k] k by (simp add: j1_def)
    qed
  qed
  show ?case
  proof (cases "i1 > j1")
    case True
    then have "ys = xs" "m = i1"
      using res by (subst (asm) partitionEqual_loop.simps, auto simp add: i1_def j1_def Let_def)+
    moreover have "Suc j1 = i1" using True j1 by simp
    ultimately show ?thesis using i1 j1 L1 R1 by auto
  next
    case False
    then have eq: "partitionEqual_loop lt (swap xs i1 j1) a (i1 + 1) (j1 - 1) = (ys, m)"
      using res by (subst (asm) partitionEqual_loop.simps) (simp add: i1_def j1_def Let_def)
    have "0 < i" using ai by simp
    have le': "i1 \<le> j1" using False by simp
    have ni: "lt (xs ! a) (xs ! i1)"
      using scan_up_stop[of "\<lambda>x. \<not> lt (xs ! a) x" xs i j] le' j1 by (simp add: i1_def)
    have "0 < i1" using i1 \<open>0 < i\<close> by simp
    then have nj: "\<not> lt (xs ! a) (xs ! j1)"
      using scan_down_stop[of i1 "\<lambda>x. lt (xs ! a) x" xs j] le' by (simp add: j1_def)
    have "i1 \<noteq> j1" using ni nj by auto
    then have lt': "i1 < j1" using le' by simp
    let ?xs' = "swap xs i1 j1"
    have in_range: "i1 < length xs" "j1 < length xs" using lt' j1 jb bl by auto
    have nth': "\<And>k. ?xs' ! k = (if k = i1 then xs ! j1 else if k = j1 then xs ! i1 else xs ! k)"
      using in_range by (simp add: nth_swap)
    have na: "a \<noteq> i1" "a \<noteq> j1" using ai i1 lt' by auto
    have a': "?xs' ! a = xs ! a" using na by (simp add: nth')
    have q1: "a < i1 + 1" using ai i1 by simp
    have q2: "i1 + 1 \<le> Suc (j1 - 1)" using lt' by simp
    have q3: "j1 - 1 < b" using j1 jb by simp
    have q4: "b \<le> length ?xs'" using bl by simp
    have q5: "\<forall>k. a < k \<and> k < i1 + 1 \<longrightarrow> \<not> lt (?xs' ! a) (?xs' ! k)"
    proof (intro allI impI)
      fix k assume k: "a < k \<and> k < i1 + 1"
      show "\<not> lt (?xs' ! a) (?xs' ! k)"
        unfolding a' using k L1 nj lt' by (cases "k = i1") (auto simp: nth')
    qed
    have q6: "\<forall>k. j1 - 1 < k \<and> k < b \<longrightarrow> lt (?xs' ! a) (?xs' ! k)"
    proof (intro allI impI)
      fix k assume k: "j1 - 1 < k \<and> k < b"
      show "lt (?xs' ! a) (?xs' ! k)"
        unfolding a' using k R1 ni lt' by (cases "k = j1") (auto simp: nth')
    qed
    have r: "rearr (Suc a) b xs ?xs'"
      using ai i1 lt' j1 jb bl by (intro rearr_swap) auto
    from "1.IH"[OF i1_def j1_def False q1 q2 q3 q4 q5 q6 eq]
    have IH: "rearr (Suc a) b ?xs' ys" "i1 + 1 \<le> m" "m \<le> Suc (j1 - 1)"
      "\<forall>k. a < k \<and> k < m \<longrightarrow> \<not> lt (xs ! a) (ys ! k)"
      "\<forall>k. m \<le> k \<and> k < b \<longrightarrow> lt (xs ! a) (ys ! k)"
      by (simp_all add: a')
    show ?thesis
      using rearr_trans[OF r IH(1)] IH(2-5) i1 j1 lt' by auto
  qed
qed

lemma partitionEqual_func_correct:
  assumes ap: "a \<le> pivot" and pb: "pivot < b" and bl: "b \<le> length xs"
    and res: "partitionEqual_func lt xs a b pivot = (ys, mid)"
    and irr: "\<not> lt (xs ! pivot) (xs ! pivot)"
  shows "rearr a b xs ys \<and> a < mid \<and> mid \<le> b \<and>
         (\<forall>k. a \<le> k \<and> k < mid \<longrightarrow> \<not> lt (xs ! pivot) (ys ! k)) \<and>
         (\<forall>k. mid \<le> k \<and> k < b \<longrightarrow> lt (xs ! pivot) (ys ! k))"
proof -
  define xs1 where "xs1 = swap xs a pivot"
  have ab: "a < b" using ap pb by simp
  have len1: "length xs1 = length xs" by (simp add: xs1_def)
  have r1: "rearr a b xs xs1"
    unfolding xs1_def using ap pb bl ab by (intro rearr_swap) auto
  have pa: "xs1 ! a = xs ! pivot"
    using ap pb bl by (simp add: xs1_def nth_swap)
  have pl: "partitionEqual_loop lt xs1 a (a + 1) (b - 1) = (ys, mid)"
    using res by (simp add: partitionEqual_func_def xs1_def)
  have q1: "a < a + 1" by simp
  have q2: "a + 1 \<le> Suc (b - 1)" using ab by simp
  have q3: "b - 1 < b" using ab by simp
  have q4: "b \<le> length xs1" using bl len1 by simp
  have q5: "\<forall>k. a < k \<and> k < a + 1 \<longrightarrow> \<not> lt (xs1 ! a) (xs1 ! k)" by auto
  have q6: "\<forall>k. b - 1 < k \<and> k < b \<longrightarrow> lt (xs1 ! a) (xs1 ! k)" by auto
  from partitionEqual_loop_correct[OF q1 q2 q3 q4 q5 q6 pl]
  have PL: "rearr (Suc a) b xs1 ys" "a + 1 \<le> mid" "mid \<le> Suc (b - 1)"
    "\<forall>k. a < k \<and> k < mid \<longrightarrow> \<not> lt (xs ! pivot) (ys ! k)"
    "\<forall>k. mid \<le> k \<and> k < b \<longrightarrow> lt (xs ! pivot) (ys ! k)"
    by (simp_all add: pa)
  have ya: "ys ! a = xs ! pivot"
    using PL(1) ab bl len1 pa by (simp add: rearr_def)
  have "rearr a b xs ys"
    using rearr_trans[OF r1 rearr_mono[OF PL(1), of a b]] by simp
  moreover have "\<forall>k. a \<le> k \<and> k < mid \<longrightarrow> \<not> lt (xs ! pivot) (ys ! k)"
  proof (intro allI impI)
    fix k assume k: "a \<le> k \<and> k < mid"
    show "\<not> lt (xs ! pivot) (ys ! k)"
      using k PL(4) irr ya by (cases "k = a") auto
  qed
  ultimately show ?thesis using PL(2,3,5) ab by simp
qed

lemma order2_func_in:
  "order2_func lt xs a b s = (x, y, s') \<Longrightarrow> (x = a \<and> y = b) \<or> (x = b \<and> y = a)"
  by (auto simp: order2_func_def split: if_splits)

lemma median_func_in: "fst (median_func lt xs a b c s) \<in> {a, b, c}"
proof -
  obtain a1 b1 s1 where o1: "order2_func lt xs a b s = (a1, b1, s1)"
    by (cases "order2_func lt xs a b s")
  obtain b2 c2 s2 where o2: "order2_func lt xs b1 c s1 = (b2, c2, s2)"
    by (cases "order2_func lt xs b1 c s1")
  obtain a3 b3 s3 where o3: "order2_func lt xs a1 b2 s2 = (a3, b3, s3)"
    by (cases "order2_func lt xs a1 b2 s2")
  have "fst (median_func lt xs a b c s) = b3"
    by (simp add: median_func_def o1 o2 o3)
  then show ?thesis
    using order2_func_in[OF o1] order2_func_in[OF o2] order2_func_in[OF o3] by auto
qed

lemma medianAdjacent_func_in:
  "0 < a \<Longrightarrow> a - 1 \<le> fst (medianAdjacent_func lt xs a s) \<and> fst (medianAdjacent_func lt xs a s) \<le> a + 1"
  using median_func_in[of lt xs "a - 1" a "a + 1" s] by (auto simp: medianAdjacent_func_def)

lemma choosePivot_fst_small:
  assumes "8 \<le> b - a" and "\<not> 50 \<le> b - a"
    and "median_func lt xs (a + (b - a) div 4 * 1) (a + (b - a) div 4 * 2) (a + (b - a) div 4 * 3) 0 = (r, sw)"
  shows "fst (choosePivot_func lt xs a b) = r"
  using assms by (simp add: choosePivot_func_def Let_def)

lemma choosePivot_fst_large:
  assumes "50 \<le> b - a"
    and "medianAdjacent_func lt xs (a + (b - a) div 4 * 1) 0 = (i', sa)"
    and "medianAdjacent_func lt xs (a + (b - a) div 4 * 2) sa = (j', sb)"
    and "medianAdjacent_func lt xs (a + (b - a) div 4 * 3) sb = (k', sc)"
    and "median_func lt xs i' j' k' sc = (r, sw)"
  shows "fst (choosePivot_func lt xs a b) = r"
  using assms by (simp add: choosePivot_func_def Let_def)

lemma choosePivot_func_in:
  assumes "12 < b - a"
  shows "a \<le> fst (choosePivot_func lt xs a b) \<and> fst (choosePivot_func lt xs a b) < b"
proof -
  define d where "d = (b - a) div 4"
  have d: "3 \<le> d" "a + 4 * d \<le> b" using assms by (auto simp: d_def)
  show ?thesis
  proof (cases "b - a \<ge> 50")
    case True
    obtain i' sa where m1: "medianAdjacent_func lt xs (a + d * 1) 0 = (i', sa)"
      by (cases "medianAdjacent_func lt xs (a + d * 1) 0")
    obtain j' sb where m2: "medianAdjacent_func lt xs (a + d * 2) sa = (j', sb)"
      by (cases "medianAdjacent_func lt xs (a + d * 2) sa")
    obtain k' sc where m3: "medianAdjacent_func lt xs (a + d * 3) sb = (k', sc)"
      by (cases "medianAdjacent_func lt xs (a + d * 3) sb")
    obtain r sw where m4: "median_func lt xs i' j' k' sc = (r, sw)"
      by (cases "median_func lt xs i' j' k' sc")
    have bi: "a + d * 1 - 1 \<le> i'" "i' \<le> a + d * 1 + 1"
      using medianAdjacent_func_in[of "a + d * 1" lt xs 0] d(1) unfolding m1 by simp_all
    have bj: "a + d * 2 - 1 \<le> j'" "j' \<le> a + d * 2 + 1"
      using medianAdjacent_func_in[of "a + d * 2" lt xs sa] d(1) unfolding m2 by simp_all
    have bk: "a + d * 3 - 1 \<le> k'" "k' \<le> a + d * 3 + 1"
      using medianAdjacent_func_in[of "a + d * 3" lt xs sb] d(1) unfolding m3 by simp_all
    have "r = i' \<or> r = j' \<or> r = k'"
      using median_func_in[of lt xs i' j' k' sc] unfolding m4 by simp
    then have "a \<le> r \<and> r < b"
    proof (elim disjE)
      assume "r = i'" then show ?thesis using bi d by linarith
    next
      assume "r = j'" then show ?thesis using bj d by linarith
    next
      assume "r = k'" then show ?thesis using bk d by linarith
    qed
    moreover have "fst (choosePivot_func lt xs a b) = r"
      using choosePivot_fst_large[OF True] m1 m2 m3 m4 unfolding d_def by blast
    ultimately show ?thesis by simp
  next
    case False
    obtain r sw where m4: "median_func lt xs (a + d * 1) (a + d * 2) (a + d * 3) 0 = (r, sw)"
      by (cases "median_func lt xs (a + d * 1) (a + d * 2) (a + d * 3) 0")
    have "r = a + d * 1 \<or> r = a + d * 2 \<or> r = a + d * 3"
      using median_func_in[of lt xs "a + d * 1" "a + d * 2" "a + d * 3" 0] unfolding m4 by simp
    then have "a \<le> r \<and> r < b"
    proof (elim disjE)
      assume "r = a + d * 1" then show ?thesis using d by linarith
    next
      assume "r = a + d * 2" then show ?thesis using d by linarith
    next
      assume "r = a + d * 3" then show ?thesis using d by linarith
    qed
    moreover have "8 \<le> b - a" using assms by simp
    then have "fst (choosePivot_func lt xs a b) = r"
      using choosePivot_fst_small[OF _ False] m4 unfolding d_def by blast
    ultimately show ?thesis by simp
  qed
qed

lemma reverseRange_loop_rearr:
  "a \<le> i \<Longrightarrow> j < b \<Longrightarrow> b \<le> length xs \<Longrightarrow> rearr a b xs (reverseRange_loop xs i j)"
proof (induction xs i j rule: reverseRange_loop.induct)
  case (1 xs i j)
  show ?case
  proof (cases "i < j")
    case True
    have r: "rearr a b xs (swap xs i j)"
      using True "1.prems" by (intro rearr_swap) auto
    have "rearr a b (swap xs i j) (reverseRange_loop (swap xs i j) (i + 1) (j - 1))"
      using "1.IH"[OF True] "1.prems" True by simp
    then show ?thesis
      using rearr_trans[OF r] True by (subst reverseRange_loop.simps) simp
  next
    case False
    then show ?thesis by (subst reverseRange_loop.simps) simp
  qed
qed

lemma reverseRange_func_rearr:
  "a < b \<Longrightarrow> b \<le> length xs \<Longrightarrow> rearr a b xs (reverseRange_func xs a b)"
  unfolding reverseRange_func_def by (rule reverseRange_loop_rearr) auto

lemma bits_Len_bounds: "0 < n \<Longrightarrow> n < 2 ^ bits_Len n \<and> 2 ^ bits_Len n \<le> 2 * n"
proof (induction n rule: bits_Len.induct)
  case (1 n)
  show ?case
  proof (cases "n div 2 = 0")
    case True
    then have "n = 1" using "1.prems" by auto
    then show ?thesis by (simp add: bits_Len.simps)
  next
    case False
    then have IH: "n div 2 < 2 ^ bits_Len (n div 2)" "2 ^ bits_Len (n div 2) \<le> 2 * (n div 2)"
      using "1.IH" "1.prems" by auto
    have eq: "bits_Len n = Suc (bits_Len (n div 2))"
      using "1.prems" by (subst bits_Len.simps) simp
    show ?thesis unfolding eq using IH by auto
  qed
qed

lemma and_modulus_less:
  fixes r :: "64 word"
  shows "unat (r AND (nextPowerOfTwo n - 1)) < 2 ^ bits_Len n"
proof (cases "bits_Len n < 64")
  case True
  have "nextPowerOfTwo n - 1 = (mask (bits_Len n) :: 64 word)"
    by (simp add: nextPowerOfTwo_def mask_eq_exp_minus_1 push_bit_eq_mult)
  then have "r AND (nextPowerOfTwo n - 1) = take_bit (bits_Len n) r"
    by (simp add: take_bit_eq_mask)
  then show ?thesis
    by (simp add: unsigned_take_bit_eq)
next
  case False
  have "unat (r AND (nextPowerOfTwo n - 1)) < 2 ^ 64"
    using unsigned_less[of "r AND (nextPowerOfTwo n - 1)"] by simp
  also have "(2::nat) ^ 64 \<le> 2 ^ bits_Len n"
    using False by (intro power_increasing) auto
  finally show ?thesis .
qed

lemma breakPatterns_loop_rearr:
  "0 < len \<Longrightarrow> b = a + len \<Longrightarrow> b \<le> length xs \<Longrightarrow> a \<le> idx - 1 + i \<Longrightarrow> idx - 1 + i + n \<le> b \<Longrightarrow>
   rearr a b xs (breakPatterns_loop xs a len random (nextPowerOfTwo len) idx i n)"
proof (induction n arbitrary: xs random i)
  case 0
  then show ?case by simp
next
  case (Suc n)
  define random' where "random' = xorshift_Next random"
  define other0 where "other0 = unat (random' AND (nextPowerOfTwo len - 1))"
  define other where "other = (if other0 \<ge> len then other0 - len else other0)"
  have "other0 < 2 * len"
    using and_modulus_less[of random' len] bits_Len_bounds[OF Suc.prems(1)] by (simp add: other0_def)
  then have o: "other < len" by (auto simp: other_def)
  let ?xs' = "swap xs (idx - 1 + i) (a + other)"
  have r: "rearr a b xs ?xs'"
    using Suc.prems o by (intro rearr_swap) auto
  have eq: "breakPatterns_loop xs a len random (nextPowerOfTwo len) idx i (Suc n) =
            breakPatterns_loop ?xs' a len random' (nextPowerOfTwo len) idx (i + 1) n"
    by (simp add: Let_def random'_def other0_def other_def)
  have "rearr a b ?xs' (breakPatterns_loop ?xs' a len random' (nextPowerOfTwo len) idx (i + 1) n)"
    using Suc.prems by (intro Suc.IH) auto
  then show ?case
    unfolding eq using rearr_trans[OF r] by blast
qed

lemma breakPatterns_func_rearr:
  assumes "a \<le> b" and "b \<le> length xs"
  shows "rearr a b xs (breakPatterns_func xs a b)"
proof (cases "b - a \<ge> 8")
  case True
  define len where "len = b - a"
  have l: "8 \<le> len" "b = a + len" using True assms by (auto simp: len_def)
  have q: "2 \<le> len div 4" "len div 4 * 2 + 1 \<le> len" using l by auto
  have "rearr a b xs (breakPatterns_loop xs a len (word_of_nat len) (nextPowerOfTwo len)
          (a + (len div 4) * 2 - 1) 0 3)"
    using l q assms by (intro breakPatterns_loop_rearr) auto
  then show ?thesis
    using True by (simp add: breakPatterns_func_def Let_def len_def[symmetric])
next
  case False
  then show ?thesis by (simp add: breakPatterns_func_def Let_def)
qed

definition lower_bound :: "('a \<Rightarrow> 'a \<Rightarrow> bool) \<Rightarrow> 'a list \<Rightarrow> nat \<Rightarrow> nat \<Rightarrow> bool" where
  "lower_bound lt xs a b = (0 < a \<longrightarrow> (\<forall>k. a \<le> k \<and> k < b \<longrightarrow> \<not> lt (xs ! k) (xs ! (a - 1))))"

lemma lower_bound_rearr:
  assumes "lower_bound lt xs a b" and "rearr a b xs ys" and "a \<le> b" and "b \<le> length xs"
  shows "lower_bound lt ys a b"
proof (cases "0 < a")
  case True
  have prev: "ys ! (a - 1) = xs ! (a - 1)"
    using assms(2-4) True by (simp add: rearr_def)
  have "\<forall>k. a \<le> k \<and> k < b \<longrightarrow> \<not> lt (xs ! k) (xs ! (a - 1))"
    using assms(1) True by (simp add: lower_bound_def)
  then have "\<And>k. a \<le> k \<Longrightarrow> k < b \<Longrightarrow> \<not> lt (ys ! k) (xs ! (a - 1))"
    using rearr_all[OF assms(2-4), of "\<lambda>x. \<not> lt x (xs ! (a - 1))"] by blast
  then show ?thesis unfolding lower_bound_def prev by blast
next
  case False
  then show ?thesis by (simp add: lower_bound_def)
qed

lemma lower_bound_mono: "lower_bound lt xs a b \<Longrightarrow> b' \<le> b \<Longrightarrow> lower_bound lt xs a b'"
  by (auto simp: lower_bound_def)

lemma shift_left_eq:
  "lower_bound lt xs a (Suc j) \<Longrightarrow> a \<le> j \<Longrightarrow> j < length xs \<Longrightarrow>
   shift_left lt xs j = insertion_shift lt a xs j"
proof (induction j arbitrary: xs)
  case 0
  then show ?case by simp
next
  case (Suc j)
  show ?case
  proof (cases "lt (xs ! Suc j) (xs ! j)")
    case False
    then show ?thesis by simp
  next
    case True
    have "a \<noteq> Suc j"
    proof
      assume "a = Suc j"
      then have "\<not> lt (xs ! Suc j) (xs ! j)"
        using Suc.prems(1) by (auto simp: lower_bound_def)
      then show False using True by simp
    qed
    then have aj: "a \<le> j" using Suc.prems(2) by simp
    let ?xs' = "swap xs (Suc j) j"
    have nth': "\<And>k. ?xs' ! k = (if k = Suc j then xs ! j else if k = j then xs ! Suc j else xs ! k)"
      using Suc.prems(3) by (simp add: nth_swap)
    have lb: "lower_bound lt ?xs' a (Suc j)"
      using Suc.prems(1) aj by (auto simp: lower_bound_def nth')
    have "shift_left lt ?xs' j = insertion_shift lt a ?xs' j"
      using Suc.IH[OF lb aj] Suc.prems(3) by simp
    then show ?thesis using True aj by simp
  qed
qed

lemma shift_right_rearr:
  "0 < j \<Longrightarrow> b \<le> length xs \<Longrightarrow> rearr (j - 1) b xs (shift_right lt xs j b)"
proof (induction lt xs j b rule: shift_right.induct)
  case (1 lt xs j b)
  show ?case
  proof (cases "j < b \<and> lt (xs ! j) (xs ! (j - 1))")
    case True
    let ?xs' = "swap xs j (j - 1)"
    have r: "rearr (j - 1) b xs ?xs'"
      using True "1.prems" by (intro rearr_swap) auto
    have "rearr (j + 1 - 1) b ?xs' (shift_right lt ?xs' (j + 1) b)"
      using "1.IH" True "1.prems" by simp
    then have "rearr (j - 1) b ?xs' (shift_right lt ?xs' (j + 1) b)"
      by (rule rearr_mono) auto
    then show ?thesis
      using rearr_trans[OF r] True by (subst shift_right.simps) simp
  next
    case False
    then have "shift_right lt xs j b = xs" by (subst shift_right.simps) auto
    then show ?thesis by simp
  qed
qed

lemma scan_sorted_bounds: "i \<le> b \<Longrightarrow> i \<le> scan_sorted lt xs i b \<and> scan_sorted lt xs i b \<le> b"
proof (induction lt xs i b rule: scan_sorted.induct)
  case (1 lt xs i b)
  show ?case
  proof (cases "i < b \<and> \<not> lt (xs ! i) (xs ! (i - 1))")
    case True
    then have eq: "scan_sorted lt xs i b = scan_sorted lt xs (i + 1) b"
      by (subst scan_sorted.simps) simp
    show ?thesis using "1.IH"[OF True] True unfolding eq by simp
  next
    case False
    then have "scan_sorted lt xs i b = i" by (subst scan_sorted.simps) auto
    then show ?thesis using "1.prems" by simp
  qed
qed

lemma scan_sorted_all:
  "i \<le> k \<Longrightarrow> k < scan_sorted lt xs i b \<Longrightarrow> \<not> lt (xs ! k) (xs ! (k - 1))"
proof (induction lt xs i b rule: scan_sorted.induct)
  case (1 lt xs i b)
  show ?case
  proof (cases "i < b \<and> \<not> lt (xs ! i) (xs ! (i - 1))")
    case True
    then have eq: "scan_sorted lt xs i b = scan_sorted lt xs (i + 1) b"
      by (subst scan_sorted.simps) simp
    show ?thesis
    proof (cases "k = i")
      case True
      then show ?thesis using \<open>i < b \<and> \<not> lt (xs ! i) (xs ! (i - 1))\<close> by simp
    next
      case False
      then show ?thesis using "1.IH"[OF True] "1.prems" eq by simp
    qed
  next
    case False
    then have "scan_sorted lt xs i b = i" by (subst scan_sorted.simps) auto
    then show ?thesis using "1.prems" by simp
  qed
qed

lemma scan_sorted_stop:
  "scan_sorted lt xs i b < b \<Longrightarrow> lt (xs ! scan_sorted lt xs i b) (xs ! (scan_sorted lt xs i b - 1))"
proof (induction lt xs i b rule: scan_sorted.induct)
  case (1 lt xs i b)
  show ?case
  proof (cases "i < b \<and> \<not> lt (xs ! i) (xs ! (i - 1))")
    case True
    then have eq: "scan_sorted lt xs i b = scan_sorted lt xs (i + 1) b"
      by (subst scan_sorted.simps) simp
    show ?thesis using "1.IH"[OF True] "1.prems" unfolding eq by simp
  next
    case False
    then have eq: "scan_sorted lt xs i b = i" by (subst scan_sorted.simps) auto
    then have "i < b" using "1.prems" by simp
    then show ?thesis using False unfolding eq by simp
  qed
qed

lemma sorted_range_extend:
  assumes wo: "weak_order lt" and "sorted_range lt xs a i" and "a < i"
    and adj: "\<forall>k. i \<le> k \<and> k < n \<longrightarrow> \<not> lt (xs ! k) (xs ! (k - 1))"
  shows "sorted_range lt xs a n"
proof -
  have "\<And>p. a \<le> p \<Longrightarrow> p < q \<Longrightarrow> q < n \<Longrightarrow> \<not> lt (xs ! q) (xs ! p)" for q
  proof (induction q)
    case 0
    then show ?case by simp
  next
    case (Suc q)
    show ?case
    proof (cases "Suc q < i")
      case True
      then show ?thesis using assms(2) Suc.prems by (auto simp: sorted_range_def)
    next
      case False
      then have a1: "\<not> lt (xs ! Suc q) (xs ! q)"
        using adj[rule_format, of "Suc q"] Suc.prems by simp
      show ?thesis
      proof (cases "p = q")
        case True
        then show ?thesis using a1 by simp
      next
        case False
        then have "\<not> lt (xs ! q) (xs ! p)" using Suc.IH[of p] Suc.prems by simp
        then show ?thesis using weak_order_le_trans[OF wo a1] by blast
      qed
    qed
  qed
  then show ?thesis by (auto simp: sorted_range_def)
qed

lemma insertion_shift_self: "insertion_shift lt a xs a = xs"
  by (cases a) auto

lemma sorted_range_cong:
  "sorted_range lt xs a n \<Longrightarrow> (\<forall>k. a \<le> k \<and> k < n \<longrightarrow> ys ! k = xs ! k) \<Longrightarrow> sorted_range lt ys a n"
  by (auto simp: sorted_range_def)

lemma sorted_range_mono: "sorted_range lt xs a n \<Longrightarrow> a \<le> a' \<Longrightarrow> n' \<le> n \<Longrightarrow> sorted_range lt xs a' n'"
  by (auto simp: sorted_range_def)

lemma partialInsertionSort_loop_correct:
  "weak_order lt \<Longrightarrow> a < i \<Longrightarrow> i \<le> b \<Longrightarrow> b \<le> length xs \<Longrightarrow> sorted_range lt xs a i \<Longrightarrow>
   lower_bound lt xs a b \<Longrightarrow> partialInsertionSort_loop lt xs a b i n = (ok, ys) \<Longrightarrow>
   rearr a b xs ys \<and> (ok \<longrightarrow> sorted_range lt ys a b)"
proof (induction n arbitrary: xs i)
  case 0
  then show ?case by auto
next
  case (Suc n)
  note wo = Suc.prems(1) and ai = Suc.prems(2) and ib = Suc.prems(3) and bl = Suc.prems(4)
    and so = Suc.prems(5) and lb = Suc.prems(6) and res = Suc.prems(7)
  define i1 where "i1 = scan_sorted lt xs i b"
  have i1: "i \<le> i1" "i1 \<le> b" using scan_sorted_bounds[OF ib, of lt xs] by (simp_all add: i1_def)
  have adj: "\<forall>k. i \<le> k \<and> k < i1 \<longrightarrow> \<not> lt (xs ! k) (xs ! (k - 1))"
    using scan_sorted_all[of i _ lt xs b] by (simp add: i1_def)
  have s1: "sorted_range lt xs a i1"
    by (rule sorted_range_extend[OF wo so ai adj])
  show ?case
  proof (cases "i1 = b")
    case True
    then have "ok" "ys = xs" using res by (auto simp: i1_def Let_def)
    then show ?thesis using s1 True by simp
  next
    case nb: False
    show ?thesis
    proof (cases "b - a < 50")
      case True
      then have "ys = xs" "\<not> ok" using res nb by (auto simp: i1_def Let_def)
      then show ?thesis by simp
    next
      case False
      define xs1 where "xs1 = swap xs i1 (i1 - 1)"
      define xs2 where "xs2 = (if i1 - a \<ge> 2 then shift_left lt xs1 (i1 - 1) else xs1)"
      define xs3 where "xs3 = (if b - i1 \<ge> 2 then shift_right lt xs2 (i1 + 1) b else xs2)"
      have rec: "partialInsertionSort_loop lt xs3 a b i1 n = (ok, ys)"
        using res nb False by (auto simp add: i1_def Let_def xs1_def xs2_def xs3_def split: if_splits)
      have i1b: "i1 < b" using i1 nb by simp
      have ai1: "a < i1" using ai i1 by simp
      have stop: "lt (xs ! i1) (xs ! (i1 - 1))"
        using scan_sorted_stop[of lt xs i b] i1b by (simp add: i1_def)
      have len1: "length xs1 = length xs" by (simp add: xs1_def)
      have nth1: "\<And>k. xs1 ! k = (if k = i1 then xs ! (i1 - 1) else if k = i1 - 1 then xs ! i1 else xs ! k)"
        unfolding xs1_def using i1b bl by (simp add: nth_swap)
      have r1: "rearr a b xs xs1"
        unfolding xs1_def using ai1 i1b bl by (intro rearr_swap) auto
      have lb1: "lower_bound lt xs1 a b"
        using lower_bound_rearr[OF lb r1] ai1 i1b bl by simp
      have x2: "xs2 = insertion_shift lt a xs1 (i1 - 1)"
      proof (cases "i1 - a \<ge> 2")
        case True
        have "lower_bound lt xs1 a (Suc (i1 - 1))"
          using lower_bound_mono[OF lb1, of "Suc (i1 - 1)"] i1b by simp
        then have "shift_left lt xs1 (i1 - 1) = insertion_shift lt a xs1 (i1 - 1)"
          using ai1 i1b bl len1 by (intro shift_left_eq) auto
        then show ?thesis using True by (simp add: xs2_def)
      next
        case False
        then have "i1 - 1 = a" using ai1 by simp
        then show ?thesis using False by (simp add: xs2_def insertion_shift_self)
      qed
      have c1: "\<forall>p q. a \<le> p \<and> p < q \<and> q \<le> i1 \<and> p \<noteq> i1 - 1 \<and> q \<noteq> i1 - 1 \<longrightarrow> \<not> lt (xs1 ! q) (xs1 ! p)"
      proof (intro allI impI)
        fix p q assume pq: "a \<le> p \<and> p < q \<and> q \<le> i1 \<and> p \<noteq> i1 - 1 \<and> q \<noteq> i1 - 1"
        show "\<not> lt (xs1 ! q) (xs1 ! p)"
        proof (cases "q = i1")
          case True
          then have "p < i1 - 1" using pq by linarith
          then have "\<not> lt (xs ! (i1 - 1)) (xs ! p)" using s1 pq ai1 by (auto simp: sorted_range_def)
          then show ?thesis using True pq by (auto simp: nth1)
        next
          case False
          then have "\<not> lt (xs ! q) (xs ! p)" using s1 pq by (auto simp: sorted_range_def)
          then show ?thesis using False pq by (auto simp: nth1)
        qed
      qed
      have c2: "\<forall>k. i1 - 1 < k \<and> k \<le> i1 \<longrightarrow> \<not> lt (xs1 ! k) (xs1 ! (i1 - 1))"
      proof (intro allI impI)
        fix k assume "i1 - 1 < k \<and> k \<le> i1"
        then have "k = i1" by linarith
        then show "\<not> lt (xs1 ! k) (xs1 ! (i1 - 1))"
          using weak_order_asym[OF wo stop] ai1 by (auto simp: nth1)
      qed
      have "a \<le> i1 - 1" "i1 - 1 \<le> i1" "i1 < length xs1" using ai1 i1b bl len1 by auto
      from insertion_shift_correct[OF wo this c1 c2]
      have sh: "rearr a (Suc i1) xs1 xs2" "sorted_range lt xs2 a (Suc i1)"
        by (simp_all add: x2)
      have len2: "length xs2 = length xs" using sh(1) len1 by (simp add: rearr_def)
      have r3: "rearr i1 b xs2 xs3"
      proof (cases "b - i1 \<ge> 2")
        case True
        have "rearr (i1 + 1 - 1) b xs2 (shift_right lt xs2 (i1 + 1) b)"
          using bl len2 by (intro shift_right_rearr) auto
        then show ?thesis using True by (simp add: xs3_def)
      next
        case False
        then show ?thesis by (simp add: xs3_def)
      qed
      have len3: "length xs3 = length xs" using r3 len2 by (simp add: rearr_def)
      have r: "rearr a b xs xs3"
        using rearr_trans[OF r1 rearr_trans[OF rearr_mono[OF sh(1), of a b] rearr_mono[OF r3, of a b]]]
          i1b ai1 by simp
      have "\<forall>k. a \<le> k \<and> k < i1 \<longrightarrow> xs3 ! k = xs2 ! k"
        using r3 i1b bl len2 by (auto simp: rearr_def)
      then have s3: "sorted_range lt xs3 a i1"
        using sorted_range_cong[OF sorted_range_mono[OF sh(2), of a i1]] by simp
      have lb3: "lower_bound lt xs3 a b"
        using lower_bound_rearr[OF lb r] ai1 i1b bl by simp
      have "b \<le> length xs3" using bl len3 by simp
      from Suc.IH[OF wo ai1 i1(2) this s3 lb3 rec]
      show ?thesis using rearr_trans[OF r] by blast
    qed
  qed
qed

lemma partialInsertionSort_func_correct:
  assumes "weak_order lt" and "a < b" and "b \<le> length xs" and "lower_bound lt xs a b"
    and "partialInsertionSort_func lt xs a b = (ok, ys)"
  shows "rearr a b xs ys \<and> (ok \<longrightarrow> sorted_range lt ys a b)"
proof -
  have "a < a + 1" "a + 1 \<le> b" using assms(2) by auto
  from partialInsertionSort_loop_correct[OF assms(1) this assms(3) sorted_range_single assms(4)]
  show ?thesis using assms(5) unfolding partialInsertionSort_func_def by blast
qed

definition heap_except ::
  "('a \<Rightarrow> 'a \<Rightarrow> bool) \<Rightarrow> 'a list \<Rightarrow> nat \<Rightarrow> nat \<Rightarrow> nat \<Rightarrow> nat \<Rightarrow> bool" where
  "heap_except lt xs first lo hi root =
     (\<forall>r c. lo \<le> r \<and> c < hi \<and> (c = 2 * r + 1 \<or> c = 2 * r + 2) \<and> r \<noteq> root
            \<longrightarrow> \<not> lt (xs ! (first + r)) (xs ! (first + c)))"

definition heap_from :: "('a \<Rightarrow> 'a \<Rightarrow> bool) \<Rightarrow> 'a list \<Rightarrow> nat \<Rightarrow> nat \<Rightarrow> nat \<Rightarrow> bool" where
  "heap_from lt xs first lo hi =
     (\<forall>r c. lo \<le> r \<and> c < hi \<and> (c = 2 * r + 1 \<or> c = 2 * r + 2)
            \<longrightarrow> \<not> lt (xs ! (first + r)) (xs ! (first + c)))"

definition heap_grand ::
  "('a \<Rightarrow> 'a \<Rightarrow> bool) \<Rightarrow> 'a list \<Rightarrow> nat \<Rightarrow> nat \<Rightarrow> nat \<Rightarrow> nat \<Rightarrow> bool" where
  "heap_grand lt xs first lo hi root =
     (\<forall>q c. lo \<le> q \<and> (root = 2 * q + 1 \<or> root = 2 * q + 2) \<and> c < hi \<and>
            (c = 2 * root + 1 \<or> c = 2 * root + 2)
            \<longrightarrow> \<not> lt (xs ! (first + q)) (xs ! (first + c)))"

lemma heap_fromI:
  assumes "heap_except lt xs first lo hi root"
    and "\<And>c. c < hi \<Longrightarrow> c = 2 * root + 1 \<or> c = 2 * root + 2 \<Longrightarrow> \<not> lt (xs ! (first + root)) (xs ! (first + c))"
  shows "heap_from lt xs first lo hi"
  unfolding heap_from_def
proof (intro allI impI)
  fix r c assume rc: "lo \<le> r \<and> c < hi \<and> (c = 2 * r + 1 \<or> c = 2 * r + 2)"
  show "\<not> lt (xs ! (first + r)) (xs ! (first + c))"
  proof (cases "r = root")
    case True
    then show ?thesis using assms(2)[of c] rc by blast
  next
    case False
    then show ?thesis using assms(1) rc unfolding heap_except_def by blast
  qed
qed

lemma siftDown_func_correct:
  "weak_order lt \<Longrightarrow> first + hi \<le> length xs \<Longrightarrow> lo \<le> root \<Longrightarrow>
   heap_except lt xs first lo hi root \<Longrightarrow> heap_grand lt xs first lo hi root \<Longrightarrow>
   rearr (first + root) (first + hi) xs (siftDown_func lt xs root hi first) \<and>
   heap_from lt (siftDown_func lt xs root hi first) first lo hi"
proof (induction lt xs root hi first rule: siftDown_func.induct)
  case (1 lt xs root hi first)
  note wo = "1.prems"(1) and len = "1.prems"(2) and lo = "1.prems"(3)
    and he = "1.prems"(4) and hg = "1.prems"(5)
  define child where "child = 2 * root + 1"
  define child' where
    "child' = (if child + 1 < hi \<and> lt (xs ! (first + child)) (xs ! (first + child + 1))
               then child + 1 else child)"
  have step: "siftDown_func lt xs root hi first =
      (if child \<ge> hi then xs
       else if \<not> lt (xs ! (first + root)) (xs ! (first + child')) then xs
       else siftDown_func lt (swap xs (first + root) (first + child')) child' hi first)"
    unfolding child_def child'_def by (subst siftDown_func.simps) (simp only: Let_def)
  show ?case
  proof (cases "child \<ge> hi")
    case True
    then have eq: "siftDown_func lt xs root hi first = xs"
      by (simp add: step)
    have "heap_from lt xs first lo hi"
      using he True by (intro heap_fromI[OF he]) (auto simp: child_def)
    then show ?thesis unfolding eq by simp
  next
    case False
    then have ch: "child < hi" by simp
    have c': "child' = child \<or> child' = child + 1" "child' < hi"
      using ch by (auto simp: child'_def)
    have big: "\<And>c. c < hi \<Longrightarrow> c = 2 * root + 1 \<or> c = 2 * root + 2 \<Longrightarrow>
                 \<not> lt (xs ! (first + child')) (xs ! (first + c))"
    proof -
      fix c assume c: "c < hi" "c = 2 * root + 1 \<or> c = 2 * root + 2"
      show "\<not> lt (xs ! (first + child')) (xs ! (first + c))"
      proof (cases "child + 1 < hi \<and> lt (xs ! (first + child)) (xs ! (first + child + 1))")
        case True
        then have e: "child' = child + 1" by (simp add: child'_def)
        show ?thesis
        proof (cases "c = child")
          case True
          then show ?thesis
            using \<open>child + 1 < hi \<and> lt (xs ! (first + child)) (xs ! (first + child + 1))\<close>
              weak_order_asym[OF wo] e by (simp add: add.assoc)
        next
          case False
          then have "c = child + 1" using c by (simp add: child_def)
          then show ?thesis using e weak_order_irrefl[OF wo] by simp
        qed
      next
        case False
        then have e: "child' = child" by (simp add: child'_def)
        show ?thesis
        proof (cases "c = child")
          case True
          then show ?thesis using e weak_order_irrefl[OF wo] by simp
        next
          case nc: False
          then have "c = child + 1" using c by (simp add: child_def)
          then show ?thesis using False c(1) e by (simp add: add.assoc)
        qed
      qed
    qed
    show ?thesis
    proof (cases "lt (xs ! (first + root)) (xs ! (first + child'))")
      case nl: False
      then have eq: "siftDown_func lt xs root hi first = xs"
        using ch by (simp add: step)
      have "heap_from lt xs first lo hi"
      proof (rule heap_fromI[OF he])
        fix c assume c: "c < hi" "c = 2 * root + 1 \<or> c = 2 * root + 2"
        show "\<not> lt (xs ! (first + root)) (xs ! (first + c))"
          using weak_order_le_trans[OF wo nl big[OF c]] .
      qed
      then show ?thesis unfolding eq by simp
    next
      case True
      let ?xs' = "swap xs (first + root) (first + child')"
      have eq: "siftDown_func lt xs root hi first = siftDown_func lt ?xs' child' hi first"
        using ch True by (simp add: step)
      have rc: "root < child'" using c'(1) by (auto simp: child_def)
      have inr: "first + root < length xs" "first + child' < length xs"
        using rc c'(2) len by auto
      have nth': "\<And>k. ?xs' ! (first + k) =
          (if k = root then xs ! (first + child') else if k = child' then xs ! (first + root)
           else xs ! (first + k))"
        using inr by (simp add: nth_swap)
      have he': "heap_except lt ?xs' first lo hi child'"
        unfolding heap_except_def
      proof (intro allI impI)
        fix r c
        assume rc': "lo \<le> r \<and> c < hi \<and> (c = 2 * r + 1 \<or> c = 2 * r + 2) \<and> r \<noteq> child'"
        show "\<not> lt (?xs' ! (first + r)) (?xs' ! (first + c))"
        proof (cases "r = root")
          case True
          show ?thesis
          proof (cases "c = child'")
            case True
            then show ?thesis
              using \<open>r = root\<close> rc weak_order_asym[OF wo \<open>lt (xs ! (first + root)) (xs ! (first + child'))\<close>]
              by (simp add: nth')
          next
            case False
            have "c \<noteq> root" using rc' \<open>r = root\<close> by auto
            then have "?xs' ! (first + c) = xs ! (first + c)" using False by (simp add: nth')
            moreover have "\<not> lt (xs ! (first + child')) (xs ! (first + c))"
              using big[of c] rc' \<open>r = root\<close> by blast
            ultimately show ?thesis using \<open>r = root\<close> by (simp add: nth')
          qed
        next
          case nr: False
          have xr: "?xs' ! (first + r) = xs ! (first + r)" using nr rc' by (simp add: nth')
          show ?thesis
          proof (cases "c = root")
            case True
            have "child' = 2 * root + 1 \<or> child' = 2 * root + 2"
              using c'(1) by (auto simp: child_def)
            then have "lo \<le> r \<and> (root = 2 * r + 1 \<or> root = 2 * r + 2) \<and> child' < hi \<and>
                       (child' = 2 * root + 1 \<or> child' = 2 * root + 2)"
              using rc' True c'(2) by simp
            then have "\<not> lt (xs ! (first + r)) (xs ! (first + child'))"
              using hg[unfolded heap_grand_def, rule_format, of r child'] by blast
            then show ?thesis using True xr by (simp add: nth')
          next
            case False
            have "c \<noteq> child'"
            proof
              assume "c = child'"
              then have "r = root" using rc' c'(1) by (auto simp: child_def)
              then show False using nr by simp
            qed
            then have "?xs' ! (first + c) = xs ! (first + c)" using False by (simp add: nth')
            moreover have "\<not> lt (xs ! (first + r)) (xs ! (first + c))"
              using he rc' nr unfolding heap_except_def by blast
            ultimately show ?thesis using xr by simp
          qed
        qed
      qed
      have hg': "heap_grand lt ?xs' first lo hi child'"
        unfolding heap_grand_def
      proof (intro allI impI)
        fix q c
        assume qc: "lo \<le> q \<and> (child' = 2 * q + 1 \<or> child' = 2 * q + 2) \<and> c < hi \<and>
                    (c = 2 * child' + 1 \<or> c = 2 * child' + 2)"
        have q: "q = root" using qc c'(1) by (auto simp: child_def)
        have cc: "c \<noteq> root" "c \<noteq> child'" using qc rc by auto
        have "lo \<le> child' \<and> c < hi \<and> (c = 2 * child' + 1 \<or> c = 2 * child' + 2) \<and> child' \<noteq> root"
          using qc rc lo by simp
        then have "\<not> lt (xs ! (first + child')) (xs ! (first + c))"
          using he[unfolded heap_except_def, rule_format, of child' c] by blast
        then show "\<not> lt (?xs' ! (first + q)) (?xs' ! (first + c))"
          using q cc by (simp add: nth')
      qed
      have len': "first + hi \<le> length ?xs'" using len by simp
      have lo': "lo \<le> child'" using lo rc by simp
      have IH: "rearr (first + child') (first + hi) ?xs' (siftDown_func lt ?xs' child' hi first) \<and>
                heap_from lt (siftDown_func lt ?xs' child' hi first) first lo hi"
        using "1.IH"[OF child_def _ child'_def _ wo len' lo' he' hg'] ch True by simp
      have r: "rearr (first + root) (first + hi) xs ?xs'"
        using rc c'(2) len by (intro rearr_swap) auto
      have "rearr (first + root) (first + hi) ?xs' (siftDown_func lt ?xs' child' hi first)"
        using rearr_mono[OF conjunct1[OF IH], of "first + root" "first + hi"] rc by simp
      then show ?thesis unfolding eq using rearr_trans[OF r] IH by blast
    qed
  qed
qed

lemma heap_from_except: "heap_from lt xs first (Suc i) hi \<Longrightarrow> heap_except lt xs first i hi i"
  unfolding heap_from_def heap_except_def
proof (intro allI impI)
  fix r c
  assume h: "\<forall>r c. Suc i \<le> r \<and> c < hi \<and> (c = 2 * r + 1 \<or> c = 2 * r + 2) \<longrightarrow>
                  \<not> lt (xs ! (first + r)) (xs ! (first + c))"
    and rc: "i \<le> r \<and> c < hi \<and> (c = 2 * r + 1 \<or> c = 2 * r + 2) \<and> r \<noteq> i"
  then have "Suc i \<le> r \<and> c < hi \<and> (c = 2 * r + 1 \<or> c = 2 * r + 2)" by auto
  then show "\<not> lt (xs ! (first + r)) (xs ! (first + c))" using h by blast
qed

lemma heap_grand_top: "heap_grand lt xs first i hi i"
  unfolding heap_grand_def by auto

lemma heapSort_build_correct:
  "weak_order lt \<Longrightarrow> first + hi \<le> length xs \<Longrightarrow> heap_from lt xs first (Suc i) hi \<Longrightarrow>
   rearr first (first + hi) xs (heapSort_build lt xs hi first i) \<and>
   heap_from lt (heapSort_build lt xs hi first i) first 0 hi"
proof (induction i arbitrary: xs)
  case 0
  have "rearr (first + 0) (first + hi) xs (siftDown_func lt xs 0 hi first) \<and>
        heap_from lt (siftDown_func lt xs 0 hi first) first 0 hi"
    using "0.prems" by (intro siftDown_func_correct heap_from_except heap_grand_top) auto
  then show ?case by simp
next
  case (Suc i)
  let ?xs' = "siftDown_func lt xs (Suc i) hi first"
  have sd: "rearr (first + Suc i) (first + hi) xs ?xs' \<and> heap_from lt ?xs' first (Suc i) hi"
    using Suc.prems by (intro siftDown_func_correct heap_from_except heap_grand_top) auto
  then have len: "first + hi \<le> length ?xs'" using Suc.prems(2) by (simp add: rearr_def)
  have IH: "rearr first (first + hi) ?xs' (heapSort_build lt ?xs' hi first i) \<and>
            heap_from lt (heapSort_build lt ?xs' hi first i) first 0 hi"
    using Suc.IH[OF Suc.prems(1) len] sd by simp
  have "rearr first (first + hi) xs ?xs'"
    using rearr_mono[OF conjunct1[OF sd], of first "first + hi"] by simp
  then show ?case using rearr_trans IH by fastforce
qed

lemma heap_from_leaves: "heap_from lt xs first (Suc ((hi - 1) div 2)) hi"
  unfolding heap_from_def
proof (intro allI impI)
  fix r c assume rc: "Suc ((hi - 1) div 2) \<le> r \<and> c < hi \<and> (c = 2 * r + 1 \<or> c = 2 * r + 2)"
  then have "hi \<le> 2 * r + 1" by linarith
  then have False using rc by linarith
  then show "\<not> lt (xs ! (first + r)) (xs ! (first + c))" ..
qed

lemma heap_root_max:
  assumes wo: "weak_order lt" and h: "heap_from lt xs first 0 hi"
  shows "k < hi \<Longrightarrow> \<not> lt (xs ! first) (xs ! (first + k))"
proof (induction k rule: less_induct)
  case (less k)
  show ?case
  proof (cases "k = 0")
    case True
    then show ?thesis using weak_order_irrefl[OF wo] by simp
  next
    case False
    define r where "r = (k - 1) div 2"
    have rk: "r < k" "k = 2 * r + 1 \<or> k = 2 * r + 2" using False by (auto simp: r_def)
    have 1: "\<not> lt (xs ! first) (xs ! (first + r))" using less.IH[OF rk(1)] less.prems rk(1) by simp
    have "0 \<le> r \<and> k < hi \<and> (k = 2 * r + 1 \<or> k = 2 * r + 2)" using rk less.prems by simp
    then have 2: "\<not> lt (xs ! (first + r)) (xs ! (first + k))"
      using h[unfolded heap_from_def, rule_format, of r k] by blast
    show ?thesis using weak_order_le_trans[OF wo 1 2] .
  qed
qed

lemma heapSort_pop_correct:
  "weak_order lt \<Longrightarrow> n \<le> hi \<Longrightarrow> first + hi \<le> length xs \<Longrightarrow>
   heap_from lt xs first 0 n \<Longrightarrow> sorted_range lt xs (first + n) (first + hi) \<Longrightarrow>
   (\<forall>p q. p < n \<and> n \<le> q \<and> q < hi \<longrightarrow> \<not> lt (xs ! (first + q)) (xs ! (first + p))) \<Longrightarrow>
   rearr first (first + hi) xs (heapSort_pop lt xs first n) \<and>
   sorted_range lt (heapSort_pop lt xs first n) first (first + hi)"
proof (induction n arbitrary: xs)
  case 0
  then show ?case by simp
next
  case (Suc i)
  note wo = Suc.prems(1) and nh = Suc.prems(2) and len = Suc.prems(3) and hp = Suc.prems(4)
    and srt = Suc.prems(5) and lr = Suc.prems(6)
  define xs1 where "xs1 = swap xs first (first + i)"
  define xs2 where "xs2 = siftDown_func lt xs1 0 i first"
  have ih: "i < hi" using nh by simp
  have len1: "length xs1 = length xs" by (simp add: xs1_def)
  have nth1: "\<And>k. k < hi \<Longrightarrow> xs1 ! (first + k) =
      (if k = 0 then xs ! (first + i) else if k = i then xs ! first else xs ! (first + k))"
    unfolding xs1_def using ih len by (simp add: nth_swap)
  have r1: "rearr first (first + hi) xs xs1"
    unfolding xs1_def using ih len by (intro rearr_swap) auto
  have he: "heap_except lt xs1 first 0 i 0"
    unfolding heap_except_def
  proof (intro allI impI)
    fix r c assume rc: "0 \<le> r \<and> c < i \<and> (c = 2 * r + 1 \<or> c = 2 * r + 2) \<and> r \<noteq> 0"
    then have "r < i" "c \<noteq> 0" by auto
    then have "xs1 ! (first + r) = xs ! (first + r)" "xs1 ! (first + c) = xs ! (first + c)"
      using rc ih by (simp_all add: nth1)
    moreover have "0 \<le> r \<and> c < Suc i \<and> (c = 2 * r + 1 \<or> c = 2 * r + 2)" using rc by simp
    then have "\<not> lt (xs ! (first + r)) (xs ! (first + c))"
      using hp[unfolded heap_from_def, rule_format, of r c] by blast
    ultimately show "\<not> lt (xs1 ! (first + r)) (xs1 ! (first + c))" by simp
  qed
  have "first + i \<le> length xs1" using ih len len1 by simp
  from siftDown_func_correct[OF wo this le_refl he heap_grand_top]
  have sd: "rearr first (first + i) xs1 xs2" "heap_from lt xs2 first 0 i"
    by (simp_all add: xs2_def)
  have len2: "length xs2 = length xs" using sd(1) len1 by (simp add: rearr_def)
  have out2: "\<And>k. i \<le> k \<Longrightarrow> k < hi \<Longrightarrow> xs2 ! (first + k) = xs1 ! (first + k)"
    using sd(1) len len1 by (simp add: rearr_def)
  have srt2: "sorted_range lt xs2 (first + i) (first + hi)"
    unfolding sorted_range_def
  proof (intro allI impI)
    fix p q assume pq: "first + i \<le> p \<and> p < q \<and> q < first + hi"
    define p' q' where "p' = p - first" and "q' = q - first"
    have pq': "i \<le> p'" "p' < q'" "q' < hi" "p = first + p'" "q = first + q'"
      using pq by (auto simp: p'_def q'_def)
    have xq: "xs2 ! q = xs ! (first + q')"
      using out2[of q'] nth1[of q'] pq' by simp
    show "\<not> lt (xs2 ! q) (xs2 ! p)"
    proof (cases "p' = i")
      case True
      then have xp: "xs2 ! p = xs ! first" using out2[of p'] nth1[of p'] pq' ih by auto
      have "0 < Suc i \<and> Suc i \<le> q' \<and> q' < hi" using pq' True by simp
      then have "\<not> lt (xs ! (first + q')) (xs ! (first + 0))"
        using lr[rule_format, of 0 q'] by blast
      then show ?thesis using xp xq by simp
    next
      case False
      then have xp: "xs2 ! p = xs ! (first + p')" using out2[of p'] nth1[of p'] pq' by simp
      have "first + Suc i \<le> first + p' \<and> first + p' < first + q' \<and> first + q' < first + hi"
        using pq' False by simp
      then have "\<not> lt (xs ! (first + q')) (xs ! (first + p'))"
        using srt[unfolded sorted_range_def, rule_format, of "first + p'" "first + q'"] by blast
      then show ?thesis using xp xq by simp
    qed
  qed
  have old: "\<And>q k. i \<le> q \<Longrightarrow> q < hi \<Longrightarrow> k < Suc i \<Longrightarrow> \<not> lt (xs1 ! (first + q)) (xs ! (first + k))"
  proof -
    fix q k assume q: "i \<le> q" "q < hi" and k: "k < Suc i"
    show "\<not> lt (xs1 ! (first + q)) (xs ! (first + k))"
    proof (cases "q = i")
      case True
      then have "xs1 ! (first + q) = xs ! first" using nth1[of q] q ih by auto
      then show ?thesis using heap_root_max[OF wo hp k] by simp
    next
      case False
      then have "xs1 ! (first + q) = xs ! (first + q)" using nth1[of q] q by simp
      moreover have "k < Suc i \<and> Suc i \<le> q \<and> q < hi" using k q False by simp
      then have "\<not> lt (xs ! (first + q)) (xs ! (first + k))"
        using lr[rule_format, of k q] by blast
      ultimately show ?thesis by simp
    qed
  qed
  have lr2: "\<forall>p q. p < i \<and> i \<le> q \<and> q < hi \<longrightarrow> \<not> lt (xs2 ! (first + q)) (xs2 ! (first + p))"
  proof (intro allI impI)
    fix p q assume pq: "p < i \<and> i \<le> q \<and> q < hi"
    have A: "\<forall>k. first \<le> k \<and> k < first + i \<longrightarrow> \<not> lt (xs1 ! (first + q)) (xs1 ! k)"
    proof (intro allI impI)
      fix k assume k: "first \<le> k \<and> k < first + i"
      define k' where "k' = k - first"
      have k': "k = first + k'" "k' < i" using k by (auto simp: k'_def)
      have "xs1 ! k = (if k' = 0 then xs ! (first + i) else xs ! (first + k'))"
        using nth1[of k'] k' ih by simp
      then show "\<not> lt (xs1 ! (first + q)) (xs1 ! k)"
        using old[of q i] old[of q k'] pq k' by simp
    qed
    have "first + i \<le> length xs1" using ih len len1 by simp
    from rearr_all[OF sd(1) _ this A, of "first + p"]
    have "\<not> lt (xs1 ! (first + q)) (xs2 ! (first + p))" using pq by simp
    then show "\<not> lt (xs2 ! (first + q)) (xs2 ! (first + p))"
      using out2[of q] pq by simp
  qed
  have "i \<le> hi" "first + hi \<le> length xs2" using ih len len2 by auto
  from Suc.IH[OF wo this sd(2) srt2 lr2]
  have IH: "rearr first (first + hi) xs2 (heapSort_pop lt xs2 first i)"
    "sorted_range lt (heapSort_pop lt xs2 first i) first (first + hi)" by simp_all
  have r2: "rearr first (first + hi) xs1 xs2"
    using rearr_mono[OF sd(1), of first "first + hi"] ih by simp
  have eq: "heapSort_pop lt xs first (Suc i) = heapSort_pop lt xs2 first i"
    by (simp add: xs1_def xs2_def)
  show ?case
    unfolding eq using rearr_trans[OF r1 rearr_trans[OF r2 IH(1)]] IH(2) by simp
qed

lemma heapSort_func_correct:
  assumes wo: "weak_order lt" and "a \<le> b" and "b \<le> length xs"
  shows "rearr a b xs (heapSort_func lt xs a b) \<and> sorted_range lt (heapSort_func lt xs a b) a b"
proof -
  define hi where "hi = b - a"
  define xs1 where "xs1 = heapSort_build lt xs hi a ((hi - 1) div 2)"
  have ab: "a + hi = b" using assms(2) by (simp add: hi_def)
  have len: "a + hi \<le> length xs" using assms(3) ab by simp
  from heapSort_build_correct[OF wo len heap_from_leaves]
  have b1: "rearr a (a + hi) xs xs1" "heap_from lt xs1 a 0 hi" by (simp_all add: xs1_def)
  have len1: "a + hi \<le> length xs1" using b1(1) len by (simp add: rearr_def)
  have s0: "sorted_range lt xs1 (a + hi) (a + hi)" by (auto simp: sorted_range_def)
  have l0: "\<forall>p q. p < hi \<and> hi \<le> q \<and> q < hi \<longrightarrow> \<not> lt (xs1 ! (a + q)) (xs1 ! (a + p))" by auto
  from heapSort_pop_correct[OF wo le_refl len1 b1(2) s0 l0]
  have "rearr a (a + hi) xs1 (heapSort_pop lt xs1 a hi)"
    "sorted_range lt (heapSort_pop lt xs1 a hi) a (a + hi)" by simp_all
  moreover have "heapSort_func lt xs a b = heapSort_pop lt xs1 a hi"
    by (simp add: heapSort_func_def Let_def hi_def xs1_def)
  ultimately show ?thesis using rearr_trans[OF b1(1)] ab by simp
qed

lemma sorted_glue:
  assumes wo: "weak_order lt" and "a \<le> mid" and "mid < b"
    and L: "\<forall>k. a \<le> k \<and> k < mid \<longrightarrow> lt (ys ! k) (ys ! mid)"
    and R: "\<forall>k. mid < k \<and> k < b \<longrightarrow> \<not> lt (ys ! k) (ys ! mid)"
    and sl: "sorted_range lt ys a mid" and sr: "sorted_range lt ys (mid + 1) b"
  shows "sorted_range lt ys a b"
  unfolding sorted_range_def
proof (intro allI impI)
  fix i j assume ij: "a \<le> i \<and> i < j \<and> j < b"
  consider "j < mid" | "j = mid" | "i < mid" "mid < j" | "i = mid" | "mid < i"
    using ij by linarith
  then show "\<not> lt (ys ! j) (ys ! i)"
  proof cases
    case 1
    then show ?thesis using sl ij by (auto simp: sorted_range_def)
  next
    case 2
    then have "lt (ys ! i) (ys ! mid)" using L ij by simp
    then show ?thesis using 2 weak_order_asym[OF wo] by blast
  next
    case 3
    have "lt (ys ! i) (ys ! mid)" using L ij 3 by simp
    moreover have "\<not> lt (ys ! j) (ys ! mid)" using R ij 3 by simp
    ultimately show ?thesis using weak_order_trans[OF wo] by blast
  next
    case 4
    then show ?thesis using R ij by simp
  next
    case 5
    then show ?thesis using sr ij by (auto simp: sorted_range_def)
  qed
qed

lemma sorted_glue_equal:
  assumes wo: "weak_order lt" and "a < mid" and "mid \<le> b"
    and E1: "\<forall>k. a \<le> k \<and> k < mid \<longrightarrow> \<not> lt p (ys ! k)"
    and E2: "\<forall>k. a \<le> k \<and> k < mid \<longrightarrow> \<not> lt (ys ! k) p"
    and G: "\<forall>k. mid \<le> k \<and> k < b \<longrightarrow> lt p (ys ! k)"
    and sr: "sorted_range lt ys mid b"
  shows "sorted_range lt ys a b"
  unfolding sorted_range_def
proof (intro allI impI)
  fix i j assume ij: "a \<le> i \<and> i < j \<and> j < b"
  consider "j < mid" | "i < mid" "mid \<le> j" | "mid \<le> i"
    using ij by linarith
  then show "\<not> lt (ys ! j) (ys ! i)"
  proof cases
    case 1
    have "\<not> lt (ys ! j) p" using E2 ij 1 by simp
    moreover have "\<not> lt p (ys ! i)" using E1 ij 1 by simp
    ultimately show ?thesis using weak_order_le_trans[OF wo] by blast
  next
    case 2
    have "lt p (ys ! j)" using G ij 2 by simp
    moreover have "\<not> lt p (ys ! i)" using E1 ij 2 by simp
    ultimately have "lt (ys ! i) (ys ! j)" using weak_order_le_lt[OF wo] by blast
    then show ?thesis using weak_order_asym[OF wo] by blast
  next
    case 3
    then show ?thesis using sr ij by (auto simp: sorted_range_def)
  qed
qed

lemma pdqsort_func_correct_aux:
  "b - a = n \<Longrightarrow> weak_order lt \<Longrightarrow> a \<le> b \<Longrightarrow> b \<le> length xs \<Longrightarrow> lower_bound lt xs a b \<Longrightarrow>
   rearr a b xs (pdqsort_func lt xs a b limit wb wp) \<and>
   sorted_range lt (pdqsort_func lt xs a b limit wb wp) a b"
proof (induction n arbitrary: xs a b limit wb wp rule: less_induct)
  case (less n)
  note wo = less.prems(2) and ab = less.prems(3) and bl = less.prems(4) and lb = less.prems(5)
  define p1 where "p1 = (if \<not> wb then (breakPatterns_func xs a b, limit - 1) else (xs, limit))"
  define xs1 where "xs1 = fst p1"
  define limit1 where "limit1 = snd p1"
  define p2 where "p2 = choosePivot_func lt xs1 a b"
  define pivot0 where "pivot0 = fst p2"
  define hint0 where "hint0 = snd p2"
  define p3 where "p3 = (if hint0 = decreasingHint
      then (reverseRange_func xs1 a b, (b - 1) - (pivot0 - a), increasingHint)
      else (xs1, pivot0, hint0))"
  define xs2 where "xs2 = fst p3"
  define pivot where "pivot = fst (snd p3)"
  define hint where "hint = snd (snd p3)"
  define p4 where "p4 = (if wb \<and> wp \<and> hint = increasingHint
      then partialInsertionSort_func lt xs2 a b else (False, xs2))"
  define srt where "srt = fst p4"
  define xs3 where "xs3 = snd p4"
  define pe where "pe = partitionEqual_func lt xs3 a b pivot"
  define pp where "pp = partition_func lt xs3 a b pivot"
  define xs4 where "xs4 = fst pp"
  define mid where "mid = fst (snd pp)"
  define alr where "alr = snd (snd pp)"
  have step: "pdqsort_func lt xs a b limit wb wp =
     (if b - a \<le> 12 then insertionSort_func lt xs a b
      else if limit = 0 then heapSort_func lt xs a b
      else if srt then xs3
      else if a > 0 \<and> \<not> lt (xs3 ! (a - 1)) (xs3 ! pivot)
        then pdqsort_func lt (fst pe) (snd pe) b limit1 wb wp
      else if mid - a < b - mid
        then pdqsort_func lt (pdqsort_func lt xs4 a mid limit1 True True)
               (mid + 1) b limit1 (mid - a \<ge> (b - a) div 8) alr
      else pdqsort_func lt (pdqsort_func lt xs4 (mid + 1) b limit1 True True)
               a mid limit1 (b - mid \<ge> (b - a) div 8) alr)"
    unfolding alr_def mid_def xs4_def pp_def pe_def xs3_def srt_def p4_def hint_def pivot_def
      xs2_def p3_def hint0_def pivot0_def p2_def limit1_def xs1_def p1_def
    by (subst pdqsort_func.simps) (simp only: Let_def case_prod_beta)
  show ?case
  proof (cases "b - a \<le> 12")
    case True
    then show ?thesis
      using insertionSort_func_correct[OF wo ab bl] by (simp add: step)
  next
    case big: False
    show ?thesis
    proof (cases "limit = 0")
      case True
      have "pdqsort_func lt xs a b limit wb wp = heapSort_func lt xs a b"
        unfolding step using True big by simp
      then show ?thesis
        using heapSort_func_correct[OF wo ab bl] by simp
    next
      case lim: False
      have altb: "a < b" using big by simp
      have r1: "rearr a b xs xs1"
        using breakPatterns_func_rearr[OF ab bl] by (simp add: xs1_def p1_def)
      have len1: "length xs1 = length xs" using r1 by (simp add: rearr_def)
      have big': "12 < b - a" using big by simp
      have pv0: "a \<le> pivot0" "pivot0 < b"
        using choosePivot_func_in[OF big', of lt xs1] by (simp_all add: pivot0_def p2_def)
      have r2: "rearr a b xs1 xs2"
        using reverseRange_func_rearr[OF altb, of xs1] bl len1 by (simp add: xs2_def p3_def)
      have pv: "a \<le> pivot" "pivot < b"
        using pv0 altb by (auto simp: pivot_def p3_def)
      have r12: "rearr a b xs xs2" using rearr_trans[OF r1 r2] .
      have len2: "length xs2 = length xs" using r12 by (simp add: rearr_def)
      have lb2: "lower_bound lt xs2 a b" using lower_bound_rearr[OF lb r12 ab bl] .
      have bl2: "b \<le> length xs2" using bl len2 by simp
      have r3s: "rearr a b xs2 xs3 \<and> (srt \<longrightarrow> sorted_range lt xs3 a b)"
      proof (cases "wb \<and> wp \<and> hint = increasingHint")
        case True
        then have "partialInsertionSort_func lt xs2 a b = (srt, xs3)"
          by (simp add: p4_def srt_def xs3_def)
        from partialInsertionSort_func_correct[OF wo altb bl2 lb2 this] show ?thesis .
      next
        case False
        then have "srt = False" "xs3 = xs2" by (auto simp: p4_def srt_def xs3_def)
        then show ?thesis by simp
      qed
      have r3: "rearr a b xs xs3" using rearr_trans[OF r12] r3s by blast
      have len3: "length xs3 = length xs" using r3 by (simp add: rearr_def)
      have bl3: "b \<le> length xs3" using bl len3 by simp
      have lb3: "lower_bound lt xs3 a b" using lower_bound_rearr[OF lb r3 ab bl] .
      show ?thesis
      proof (cases srt)
        case True
        then show ?thesis using r3 r3s big lim by (simp add: step)
      next
        case ns: False
        show ?thesis
        proof (cases "a > 0 \<and> \<not> lt (xs3 ! (a - 1)) (xs3 ! pivot)")
          case True
          obtain xs4e mide where pe': "partitionEqual_func lt xs3 a b pivot = (xs4e, mide)"
            by (cases "partitionEqual_func lt xs3 a b pivot")
          define p where "p = xs3 ! pivot"
          from partitionEqual_func_correct[OF pv bl3 pe' weak_order_irrefl[OF wo]]
          have PE: "rearr a b xs3 xs4e" "a < mide" "mide \<le> b"
            "\<forall>k. a \<le> k \<and> k < mide \<longrightarrow> \<not> lt p (xs4e ! k)"
            "\<forall>k. mide \<le> k \<and> k < b \<longrightarrow> lt p (xs4e ! k)"
            by (simp_all add: p_def)
          have len4: "length xs4e = length xs" using PE(1) len3 by (simp add: rearr_def)
          have bl4: "b \<le> length xs4e" using bl len4 by simp
          have ge3: "\<forall>k. a \<le> k \<and> k < b \<longrightarrow> \<not> lt (xs3 ! k) p"
          proof (intro allI impI)
            fix k assume k: "a \<le> k \<and> k < b"
            have "\<not> lt (xs3 ! k) (xs3 ! (a - 1))"
              using lb3 True k by (simp add: lower_bound_def)
            then show "\<not> lt (xs3 ! k) p"
              using weak_order_le_trans[OF wo _ conjunct2[OF True]] by (simp add: p_def)
          qed
          have ge4: "\<And>k. a \<le> k \<Longrightarrow> k < b \<Longrightarrow> \<not> lt (xs4e ! k) p"
            using rearr_all[OF PE(1) ab bl3 ge3] by simp
          have lb4: "lower_bound lt xs4e mide b"
            unfolding lower_bound_def
          proof (intro impI allI)
            fix k assume k: "mide \<le> k \<and> k < b"
            have "\<not> lt p (xs4e ! (mide - 1))" using PE(2,4) by simp
            moreover have "lt p (xs4e ! k)" using PE(5) k by simp
            ultimately have "lt (xs4e ! (mide - 1)) (xs4e ! k)"
              using weak_order_le_lt[OF wo] by blast
            then show "\<not> lt (xs4e ! k) (xs4e ! (mide - 1))"
              using weak_order_asym[OF wo] by blast
          qed
          define R where "R = pdqsort_func lt xs4e mide b limit1 wb wp"
          have "b - mide < n" using PE(2) altb less.prems(1) by linarith
          from less.IH[OF this refl wo PE(3) bl4 lb4, of limit1 wb wp]
          have IH: "rearr mide b xs4e R" "sorted_range lt R mide b" by (simp_all add: R_def)
          have res: "pdqsort_func lt xs a b limit wb wp = R"
            using True ns big lim by (simp add: step pe_def pe' R_def)
          have out: "\<And>k. k < mide \<Longrightarrow> R ! k = xs4e ! k"
            using IH(1) PE(3) bl4 by (simp add: rearr_def)
          have E1: "\<forall>k. a \<le> k \<and> k < mide \<longrightarrow> \<not> lt p (R ! k)"
            using PE(4) out by simp
          have E2: "\<forall>k. a \<le> k \<and> k < mide \<longrightarrow> \<not> lt (R ! k) p"
            using ge4 out PE(3) by simp
          have G: "\<forall>k. mide \<le> k \<and> k < b \<longrightarrow> lt p (R ! k)"
            using rearr_all[OF IH(1) PE(3) bl4 PE(5)] by blast
          have "sorted_range lt R a b"
            by (rule sorted_glue_equal[OF wo PE(2,3) E1 E2 G IH(2)])
          moreover have "rearr a b xs R"
            using rearr_trans[OF r3 rearr_trans[OF PE(1) rearr_mono[OF IH(1), of a b]]] PE(2) by simp
          ultimately show ?thesis unfolding res by simp
        next
          case npe: False
          have pp': "partition_func lt xs3 a b pivot = (xs4, mid, alr)"
            by (simp add: xs4_def mid_def alr_def pp_def)
          from partition_func_correct[OF wo pv bl3 pp']
          have PP: "rearr a b xs3 xs4" "a \<le> mid" "mid < b"
            "\<forall>k. a \<le> k \<and> k < mid \<longrightarrow> lt (xs4 ! k) (xs4 ! mid)"
            "\<forall>k. mid < k \<and> k < b \<longrightarrow> \<not> lt (xs4 ! k) (xs4 ! mid)"
            by blast+
          have len4: "length xs4 = length xs" using PP(1) len3 by (simp add: rearr_def)
          have bl4: "b \<le> length xs4" using bl len4 by simp
          have lb4: "lower_bound lt xs4 a b" using lower_bound_rearr[OF lb3 PP(1) ab bl3] .
          have r4: "rearr a b xs xs4" using rearr_trans[OF r3 PP(1)] .
          have m1: "mid - a < n" "b - (mid + 1) < n" using PP(2,3) less.prems(1) by linarith+
          have mb: "mid \<le> length xs4" "mid + 1 \<le> b" using PP(3) bl4 by simp_all
          show ?thesis
          proof (cases "mid - a < b - mid")
            case True
            define L where "L = pdqsort_func lt xs4 a mid limit1 True True"
            define R where "R = pdqsort_func lt L (mid + 1) b limit1 (mid - a \<ge> (b - a) div 8) alr"
            have res: "pdqsort_func lt xs a b limit wb wp = R"
              using True ns npe big lim by (auto simp add: step L_def R_def)
            from less.IH[OF m1(1) refl wo PP(2) mb(1) lower_bound_mono[OF lb4], of limit1 True True]
            have IL: "rearr a mid xs4 L" "sorted_range lt L a mid"
              using PP(3) by (simp_all add: L_def)
            have lenL: "length L = length xs" using IL(1) len4 by (simp add: rearr_def)
            have blL: "b \<le> length L" using bl lenL by simp
            have outL: "\<And>k. mid \<le> k \<Longrightarrow> k < b \<Longrightarrow> L ! k = xs4 ! k"
              using IL(1) bl4 by (simp add: rearr_def)
            have lbL: "lower_bound lt L (mid + 1) b"
              unfolding lower_bound_def using PP(5) outL PP(3) by simp
            from less.IH[OF m1(2) refl wo mb(2) blL lbL, of limit1 "mid - a \<ge> (b - a) div 8" alr]
            have IR: "rearr (mid + 1) b L R" "sorted_range lt R (mid + 1) b"
              by (simp_all add: R_def)
            have outR: "\<And>k. k \<le> mid \<Longrightarrow> R ! k = L ! k"
              using IR(1) blL PP(3) by (simp add: rearr_def)
            have Rm: "R ! mid = xs4 ! mid" using outR[of mid] outL[of mid] PP(3) by simp
            have LL: "\<forall>k. a \<le> k \<and> k < mid \<longrightarrow> lt (L ! k) (xs4 ! mid)"
              using rearr_all[OF IL(1) PP(2) mb(1) PP(4)] by blast
            then have gl: "\<forall>k. a \<le> k \<and> k < mid \<longrightarrow> lt (R ! k) (R ! mid)"
              using outR Rm by simp
            have "\<forall>k. mid + 1 \<le> k \<and> k < b \<longrightarrow> \<not> lt (L ! k) (xs4 ! mid)"
              using PP(5) outL by simp
            from rearr_all[OF IR(1) mb(2) blL this]
            have gr: "\<forall>k. mid < k \<and> k < b \<longrightarrow> \<not> lt (R ! k) (R ! mid)"
              using Rm by simp
            have sl: "sorted_range lt R a mid"
              using sorted_range_cong[OF IL(2), of R] outR by simp
            have "sorted_range lt R a b"
              by (rule sorted_glue[OF wo PP(2,3) gl gr sl IR(2)])
            moreover have "rearr a b xs R"
              using rearr_trans[OF r4 rearr_trans[OF rearr_mono[OF IL(1), of a b]
                    rearr_mono[OF IR(1), of a b]]] PP(2,3) by simp
            ultimately show ?thesis unfolding res by simp
          next
            case False
            define Rr where "Rr = pdqsort_func lt xs4 (mid + 1) b limit1 True True"
            define R where "R = pdqsort_func lt Rr a mid limit1 (b - mid \<ge> (b - a) div 8) alr"
            have res: "pdqsort_func lt xs a b limit wb wp = R"
              using False ns npe big lim by (auto simp add: step Rr_def R_def)
            have lbr: "lower_bound lt xs4 (mid + 1) b"
              unfolding lower_bound_def using PP(5) by simp
            from less.IH[OF m1(2) refl wo mb(2) bl4 lbr, of limit1 True True]
            have IR: "rearr (mid + 1) b xs4 Rr" "sorted_range lt Rr (mid + 1) b"
              by (simp_all add: Rr_def)
            have lenR: "length Rr = length xs" using IR(1) len4 by (simp add: rearr_def)
            have blR: "b \<le> length Rr" "mid \<le> length Rr" using bl lenR PP(3) by simp_all
            have outR: "\<And>k. k \<le> mid \<Longrightarrow> Rr ! k = xs4 ! k"
              using IR(1) bl4 PP(3) by (simp add: rearr_def)
            have lbR: "lower_bound lt Rr a mid"
              using lower_bound_mono[OF lower_bound_rearr[OF lb4 rearr_mono[OF IR(1), of a b] ab bl4], of mid]
                PP(2,3) by simp
            from less.IH[OF m1(1) refl wo PP(2) blR(2) lbR, of limit1 "b - mid \<ge> (b - a) div 8" alr]
            have IL: "rearr a mid Rr R" "sorted_range lt R a mid"
              by (simp_all add: R_def)
            have outL: "\<And>k. mid \<le> k \<Longrightarrow> k < b \<Longrightarrow> R ! k = Rr ! k"
              using IL(1) blR by (simp add: rearr_def)
            have Rm: "R ! mid = xs4 ! mid" using outR[of mid] outL[of mid] PP(3) by simp
            have "\<forall>k. a \<le> k \<and> k < mid \<longrightarrow> lt (Rr ! k) (xs4 ! mid)"
              using PP(4) outR by simp
            from rearr_all[OF IL(1) PP(2) blR(2) this]
            have gl: "\<forall>k. a \<le> k \<and> k < mid \<longrightarrow> lt (R ! k) (R ! mid)"
              using Rm by simp
            have "\<forall>k. mid + 1 \<le> k \<and> k < b \<longrightarrow> \<not> lt (xs4 ! k) (xs4 ! mid)"
              using PP(5) by simp
            from rearr_all[OF IR(1) mb(2) bl4 this]
            have "\<forall>k. mid < k \<and> k < b \<longrightarrow> \<not> lt (Rr ! k) (xs4 ! mid)" by simp
            then have gr: "\<forall>k. mid < k \<and> k < b \<longrightarrow> \<not> lt (R ! k) (R ! mid)"
              using outL Rm by simp
            have sr: "sorted_range lt R (mid + 1) b"
              using sorted_range_cong[OF IR(2), of R] outL by simp
            have "sorted_range lt R a b"
              by (rule sorted_glue[OF wo PP(2,3) gl gr IL(2) sr])
            moreover have "rearr a b xs R"
              using rearr_trans[OF r4 rearr_trans[OF rearr_mono[OF IR(1), of a b]
                    rearr_mono[OF IL(1), of a b]]] PP(2,3) by simp
            ultimately show ?thesis unfolding res by simp
          qed
        qed
      qed
    qed
  qed
qed

theorem sort_Slice_correct:
  assumes "weak_order lt"
  shows "mset (sort_Slice lt xs) = mset xs"
    and "sorted_range lt (sort_Slice lt xs) 0 (length xs)"
  using pdqsort_func_correct_aux[OF refl assms, of 0 "length xs" xs "bits_Len (length xs)" True True]
  by (simp_all add: sort_Slice_def lower_bound_def rearr_def)

section \<open>Properties of \<^verbatim>\<open>formatNumber\<close>\<close>

lemma neg_int64_min: "neg_int64 (- 9223372036854775808) = - 9223372036854775808"
  by (simp add: neg_int64_def)

lemma formatNumber_Some_not_min:
  assumes "formatNumber n = Some y"
  shows "n \<noteq> - 9223372036854775808"
proof (rule formatNumber.raw_induct[OF _ assms])
  fix f :: "int \<Rightarrow> string option" and n y
  assume IH: "\<And>x y. f x = Some y \<Longrightarrow> x \<noteq> - 9223372036854775808"
    and eq: "(if n < 0 then Option.bind (f (neg_int64 n)) (\<lambda>s. Some (''-'' @ s))
              else Some (group_digits (Sprintf_d n))) = Some y"
  show "n \<noteq> - 9223372036854775808"
  proof
    assume n: "n = - 9223372036854775808"
    with eq obtain s where "f (neg_int64 n) = Some s"
      by (auto simp: bind_eq_Some_conv split: if_splits)
    from IH[OF this] show False by (simp add: n neg_int64_min)
  qed
qed

text \<open>The five values the specification lists.\<close>

lemmas formatNumber_eval =
  Sprintf_d_def decimal.simps digit_char_def group_digits_def formatNumber_loop.simps

lemma formatNumber_examples:
  "formatNumber 0 = Some ''0''"
  "formatNumber 999 = Some ''999''"
  "formatNumber 1000 = Some ''1,000''"
  "formatNumber 178410 = Some ''178,410''"
  by (subst formatNumber.simps, simp add: formatNumber_eval)+

lemma formatNumber_example_negative: "formatNumber (- 42000) = Some ''-42,000''"
  by (subst formatNumber.simps, simp add: neg_int64_def, subst formatNumber.simps)
     (simp add: formatNumber_eval)

text \<open>
  Claim C8. \<^verbatim>\<open>formatNumber\<close> renders a negative number as a minus sign followed by the
  grouped magnitude. The code does so by calling itself on \<^verbatim>\<open>-n\<close>; for the least 64-bit
  integer \<^verbatim>\<open>-n\<close> is \<^verbatim>\<open>n\<close> again, so the call on \<open>-9223372036854775808\<close> never returns
  (the recursion ends in a stack overflow) and renders nothing.
\<close>

theorem formatNumber_min_int64_diverges: "formatNumber (- 9223372036854775808) = None"
  using formatNumber_Some_not_min[of "- 9223372036854775808"]
  by (cases "formatNumber (- 9223372036854775808)") auto

section \<open>Properties of \<^verbatim>\<open>FormatQuestionMarkdown\<close>\<close>

text \<open>
  Claim C9. Called with a \<^verbatim>\<open>nil\<close> payload, \<^verbatim>\<open>FormatQuestionMarkdown\<close> returns the empty
  string, for every \<^verbatim>\<open>maxAnswers\<close>.
\<close>

theorem FormatQuestionMarkdown_nil:
  "FormatQuestionMarkdown UnescapeString FormatDate None maxAnswers = Some ''''"
  by (simp add: FormatQuestionMarkdown_def)

end
